theory Spec2Isabelle
  imports Complex_Main "HOL-Library.Word"
begin

section \<open>Single-precision floating point, as far as the codec uses it\<close>

text \<open>
  The C++ type \<^verbatim>\<open>float\<close> is IEEE 754 binary32. A finite binary32 value is a rational
  number \<open>m * 2 ^ e\<close> with \<open>\<bar>m\<bar> < 2 ^ 24\<close> and \<open>-149 \<le> e \<le> 104\<close>; every arithmetic
  operation computes the exact rational result and rounds it to the nearest such value,
  ties to the even mantissa. Infinities and NaN are lumped into \<open>NotFinite\<close>: the code
  under study never maps them back to a finite value.
\<close>

datatype float = Finite real | NotFinite

text \<open>
  \<open>find_exp a e k\<close> is the binary exponent used to round \<open>a \<ge> 0\<close>: it tries
  \<open>e\<close>, \<open>e - 1\<close>, \<dots> (\<open>k\<close> candidates) and returns the first one with \<open>2 ^ e \<le> a\<close>,
  or the exponent below the last candidate (the subnormal range) when there is none.
\<close>

fun find_exp :: "real \<Rightarrow> int \<Rightarrow> nat \<Rightarrow> int" where
  "find_exp a e 0 = e"
| "find_exp a e (Suc k) = (if 2 powi e \<le> a then e else find_exp a (e - 1) k)"

definition rne :: "real \<Rightarrow> int" where
  \<comment> \<open>round to the nearest integer, ties to even\<close>
  "rne x =
     (let f = \<lfloor>x\<rfloor>; d = x - of_int f
      in if d < 1 / 2 then f else if 1 / 2 < d then f + 1 else if even f then f else f + 1)"

definition fl :: "real \<Rightarrow> float" where
  \<comment> \<open>round a real number to binary32; a result of magnitude \<open>2 ^ 128\<close> or more overflows\<close>
  "fl x =
     (let e = find_exp \<bar>x\<bar> 127 253;
          q = 2 powi (e - 23);
          r = of_int (rne (x / q)) * q
      in if 2 powi 128 \<le> \<bar>r\<bar> then NotFinite else Finite r)"

definition is_float32 :: "real \<Rightarrow> bool" where
  "is_float32 x = (fl x = Finite x)"

definition float_mul :: "float \<Rightarrow> float \<Rightarrow> float" where
  "float_mul a b = (case (a, b) of (Finite x, Finite y) \<Rightarrow> fl (x * y) | _ \<Rightarrow> NotFinite)"

definition float_div :: "float \<Rightarrow> float \<Rightarrow> float" where
  \<comment> \<open>division by zero gives an infinity or NaN\<close>
  "float_div a b =
     (case (a, b) of
        (Finite x, Finite y) \<Rightarrow> if y = 0 then NotFinite else fl (x / y)
      | _ \<Rightarrow> NotFinite)"

definition int_to_float :: "int \<Rightarrow> float" where
  \<comment> \<open>the conversion of an \<^verbatim>\<open>int\<close> operand to \<^verbatim>\<open>float\<close>\<close>
  "int_to_float n = fl (of_int n)"

definition c_round :: "float \<Rightarrow> float" where
  \<comment> \<open>\<^verbatim>\<open>round\<close> of \<^verbatim>\<open>math.h\<close>: nearest integer, halfway cases away from zero; the result
      of rounding a binary32 value is a binary32 value\<close>
  "c_round a =
     (case a of
        Finite x \<Rightarrow> Finite (of_int (if 0 \<le> x then \<lfloor>x + 1 / 2\<rfloor> else \<lceil>x - 1 / 2\<rceil>))
      | NotFinite \<Rightarrow> NotFinite)"

definition float_to_int :: "float \<Rightarrow> int option" where
  \<comment> \<open>\<^verbatim>\<open>static_cast<int>\<close>: truncation towards zero; undefined behaviour (\<open>None\<close>) when the
      truncated value is not a 32-bit \<^verbatim>\<open>int\<close>\<close>
  "float_to_int a =
     (case a of
        Finite x \<Rightarrow>
          (let t = (if 0 \<le> x then \<lfloor>x\<rfloor> else \<lceil>x\<rceil>)
           in if - (2 ^ 31) \<le> t \<and> t < 2 ^ 31 then Some t else None)
      | NotFinite \<Rightarrow> None)"

text \<open>
  The code casts between \<^verbatim>\<open>int\<close> and \<^verbatim>\<open>void*\<close> with \<^verbatim>\<open>reinterpret_cast\<close>, which only
  compiles where both have the same width: the 32-bit target. Both are 32-bit words here,
  the cast is the identity on the bits, and \<open>sint\<close> reads the \<^verbatim>\<open>int\<close>.
\<close>

type_synonym payload = "32 word"
type_synonym c_int = "32 word"

abbreviation nullptr :: payload where
  "nullptr \<equiv> 0"

definition floatToVoid :: "float \<Rightarrow> payload option" where
  "floatToVoid v =
     (case float_to_int (c_round (float_mul v (Finite 100))) of
        None \<Rightarrow> None
      | Some intValue \<Rightarrow> Some (word_of_int intValue))"

definition voidToFloat :: "payload \<Rightarrow> float" where
  "voidToFloat p = float_div (int_to_float (sint p)) (Finite 100)"

section \<open>The host library\<close>

text \<open>
  The header \<^verbatim>\<open>hap.h\<close> of the host library is not part of the sources. Its enumerations
  are represented by the enumerators the code names and one further constructor for all
  the others; its two structures by the fields the code initialises, in the order of the
  initialiser lists. A function pointer is the name of the function, \<open>None\<close> is \<^verbatim>\<open>NULL\<close>.
\<close>

datatype hap_characteristic_type =
    HAP_CHARACTER_IDENTIFY
  | HAP_CHARACTER_MANUFACTURER
  | HAP_CHARACTER_MODEL
  | HAP_CHARACTER_NAME
  | HAP_CHARACTER_SERIAL_NUMBER
  | HAP_CHARACTER_FIRMWARE_REVISION
  | HAP_CHARACTER_OTHER nat

datatype hap_service_type = HAP_SERVICE_ACCESSORY_INFORMATION | HAP_SERVICE_OTHER nat

type_synonym hap_accessory_category = nat

datatype callback =
    Identify_read
  | Read_characteristic
  | Write_characteristic
  | Set_characteristic_event_handle
  | Accessory_init

text \<open>
  The initial value of a built-in characteristic is either a scalar in the pointer slot
  or the address of a character buffer, given here by the text it holds.
\<close>

datatype initial_value = Scalar payload | C_str string

record hap_characteristic =
  hc_type :: hap_characteristic_type
  hc_value :: initial_value
  hc_arg :: payload
  hc_read :: "callback option"
  hc_write :: "callback option"
  hc_event :: "callback option"

record hap_characteristic_ex =
  cs_type :: hap_characteristic_type
  cs_value :: payload
  cs_arg :: payload
  cs_read :: "callback option"
  cs_write :: "callback option"
  cs_event :: "callback option"
  override_max_value :: bool
  max_value :: payload
  override_min_value :: bool
  min_value :: payload
  cs_reserved_flag :: bool
  cs_reserved_pointer :: payload
  override_valid_values :: bool
  valid_values_length :: nat
  valid_values :: payload

section \<open>Events\<close>

text \<open>
  Every call that leaves the bridging layer is recorded, in order: the calls of the host
  library, of the closures and listeners supplied by the user, and of the allocator.
  Two further events mark the entry of \<^verbatim>\<open>value_changed\<close> and of
  \<^verbatim>\<open>get_characteristic_struct\<close>; the second one carries the accessory handle the
  characteristic holds at that moment (\<open>None\<close>: the member is still uninitialised).
\<close>

datatype typed_value = String_value string | Float_value float | Int_value c_int

datatype event =
    Hap_init
  | Hap_accessory_register string string string string hap_accessory_category int int payload
  | Hap_accessory_add payload
  | Hap_service_and_characteristics_add payload payload hap_service_type "hap_characteristic list"
  | Hap_service_and_characteristics_ex_add payload payload hap_service_type
      "hap_characteristic_ex list"
  | Hap_event_response "payload option" payload payload
  | Value_changed payload payload
  | Get_characteristic_struct payload "payload option"
  | Listener_call nat payload
  | Supplier_call payload
  | Consumer_call payload typed_value
  | Allocate payload
  | Release payload

datatype error = Bad_function_call | Bad_alloc | Undefined_behaviour | Not_enabled

section \<open>Characteristics, accessories and the state of the process\<close>

text \<open>
  The functional characteristics hold a read supplier and a write consumer, each of them
  possibly empty (\<open>None\<close>). The closures are user code: a supplier reads the user's state
  \<open>'u\<close>, a consumer changes it. A listener is identified by a number; an empty
  \<^verbatim>\<open>std::function\<close> in the listener list is \<open>None\<close>.
\<close>

datatype 'u behaviour =
    StringFunction "('u \<Rightarrow> string) option" "(string \<Rightarrow> 'u \<Rightarrow> 'u) option"
  | FloatFunction "('u \<Rightarrow> float) option" "(float \<Rightarrow> 'u \<Rightarrow> 'u) option"
  | IntFunction "('u \<Rightarrow> c_int) option" "(c_int \<Rightarrow> 'u \<Rightarrow> 'u) option"

text \<open>
  The three override probes are virtual and may be overridden by a user's subclass; the
  record holds what they return. The member \<^verbatim>\<open>accessory_handle\<close> has no initialiser.
\<close>

record 'u characteristic =
  type :: hap_characteristic_type
  accessory_handle :: "payload option"
  event_handle :: payload
  value_changed_listeners :: "nat option list"
  behaviour :: "'u behaviour"
  max_value_override :: "bool \<times> payload"
  min_value_override :: "bool \<times> payload"
  valid_values_override :: "bool \<times> c_int list"

text \<open>
  The user's \<^verbatim>\<open>init\<close> hook is the list of the \<^verbatim>\<open>add_service\<close> calls it makes.
\<close>

record accessory =
  name :: string
  accessory_id :: string
  setup_code :: string
  manufacturer_name :: string
  firmware_version :: string
  model :: string
  serial_number :: string
  category :: hap_accessory_category
  port :: int
  configuration_version :: int
  acc_handle :: payload
  accessory_object :: payload
  init :: "(hap_service_type \<times> payload list) list"

datatype heap_obj = Int_array "c_int list" | Struct_array nat | Char_buffer string

record 'u world =
  hap_initialized :: bool
  characteristics :: "payload \<rightharpoonup> 'u characteristic"
  accessories :: "payload \<rightharpoonup> accessory"
  heap :: "payload \<rightharpoonup> heap_obj"
  next_addr :: payload
  user :: 'u
  trace :: "event list"

type_synonym 'u result = "(error \<times> 'u world) + 'u world"
type_synonym ('a, 'u) result_with = "(error \<times> 'u world) + ('a \<times> 'u world)"

definition record_events :: "event list \<Rightarrow> 'u world \<Rightarrow> 'u world" where
  "record_events evs w = w\<lparr>trace := trace w @ evs\<rparr>"

text \<open>
  The allocator hands out addresses in increasing order and fails when none is left.
  Releasing an address that holds no object is undefined behaviour.
\<close>

definition allocate :: "heap_obj \<Rightarrow> 'u world \<Rightarrow> (payload, 'u) result_with" where
  "allocate obj w =
     (if next_addr w = nullptr then Inl (Bad_alloc, w)
      else Inr (next_addr w,
                w\<lparr>heap := (heap w)(next_addr w \<mapsto> obj),
                  next_addr := next_addr w + 1,
                  trace := trace w @ [Allocate (next_addr w)]\<rparr>))"

definition release :: "payload \<Rightarrow> 'u world \<Rightarrow> 'u result" where
  "release a w =
     (if heap w a = None then Inl (Undefined_behaviour, w)
      else Inr (w\<lparr>heap := (heap w)(a := None), trace := trace w @ [Release a]\<rparr>))"

section \<open>Characteristic\<close>

definition canRead :: "'u characteristic \<Rightarrow> bool" where
  "canRead c =
     (case behaviour c of
        StringFunction readFunction writeFunction \<Rightarrow> readFunction \<noteq> None
      | FloatFunction readFunction writeFunction \<Rightarrow> readFunction \<noteq> None
      | IntFunction readFunction writeFunction \<Rightarrow> readFunction \<noteq> None)"

definition canWrite :: "'u characteristic \<Rightarrow> bool" where
  "canWrite c =
     (case behaviour c of
        StringFunction readFunction writeFunction \<Rightarrow> writeFunction \<noteq> None
      | FloatFunction readFunction writeFunction \<Rightarrow> writeFunction \<noteq> None
      | IntFunction readFunction writeFunction \<Rightarrow> writeFunction \<noteq> None)"

fun call_listeners :: "payload \<Rightarrow> nat option list \<Rightarrow> event list" where
  "call_listeners this [] = []"
| "call_listeners this (None # listeners) = call_listeners this listeners"
| "call_listeners this (Some listener # listeners) =
     Listener_call listener this # call_listeners this listeners"

definition value_changed :: "payload \<Rightarrow> payload \<Rightarrow> 'u world \<Rightarrow> 'u result" where
  "value_changed this new_value w =
     (case characteristics w this of
        None \<Rightarrow> Inl (Undefined_behaviour, w)
      | Some c \<Rightarrow>
          Inr (record_events
                 (Value_changed this new_value #
                  (if event_handle c \<noteq> nullptr
                   then [Hap_event_response (accessory_handle c) (event_handle c) new_value]
                   else []) @
                  call_listeners this (value_changed_listeners c)) w))"

text \<open>
  \<^verbatim>\<open>read\<close>. Calling an empty \<^verbatim>\<open>std::function\<close> throws \<^verbatim>\<open>std::bad_function_call\<close>.
  The textual bridge returns \<^verbatim>\<open>readString().c_str()\<close>: \<^verbatim>\<open>readString\<close> returns a
  \<^verbatim>\<open>std::string\<close> by value, so the buffer belongs to a temporary object, which is
  destroyed at the end of the \<^verbatim>\<open>return\<close> statement.
\<close>

definition read :: "payload \<Rightarrow> 'u world \<Rightarrow> (payload, 'u) result_with" where
  "read this w =
     (case characteristics w this of
        None \<Rightarrow> Inl (Undefined_behaviour, w)
      | Some c \<Rightarrow>
          (case behaviour c of
             StringFunction readFunction writeFunction \<Rightarrow>
               (case readFunction of
                  None \<Rightarrow> Inl (Bad_function_call, w)
                | Some f \<Rightarrow>
                    (case allocate (Char_buffer (f (user w)))
                            (record_events [Supplier_call this] w) of
                       Inl e \<Rightarrow> Inl e
                     | Inr (temporary, w1) \<Rightarrow>
                         (case release temporary w1 of
                            Inl e \<Rightarrow> Inl e
                          | Inr w2 \<Rightarrow> Inr (temporary, w2))))
           | FloatFunction readFunction writeFunction \<Rightarrow>
               (case readFunction of
                  None \<Rightarrow> Inl (Bad_function_call, w)
                | Some f \<Rightarrow>
                    (case floatToVoid (f (user w)) of
                       None \<Rightarrow> Inl (Undefined_behaviour, record_events [Supplier_call this] w)
                     | Some p \<Rightarrow> Inr (p, record_events [Supplier_call this] w)))
           | IntFunction readFunction writeFunction \<Rightarrow>
               (case readFunction of
                  None \<Rightarrow> Inl (Bad_function_call, w)
                | Some f \<Rightarrow> Inr (f (user w), record_events [Supplier_call this] w))))"

text \<open>
  \<^verbatim>\<open>write\<close>. The length is ignored by all three bridges. The textual bridge builds a
  \<^verbatim>\<open>std::string\<close> from the zero-terminated text at the address it is given, before it
  calls the consumer; an address that holds no text is undefined behaviour.
\<close>

definition write' :: "payload \<Rightarrow> payload \<Rightarrow> nat \<Rightarrow> 'u world \<Rightarrow> 'u result" where
  "write' this val len w =
     (case characteristics w this of
        None \<Rightarrow> Inl (Undefined_behaviour, w)
      | Some c \<Rightarrow>
          (case behaviour c of
             StringFunction readFunction writeFunction \<Rightarrow>
               (case heap w val of
                  Some (Char_buffer s) \<Rightarrow>
                    (case writeFunction of
                       None \<Rightarrow> Inl (Bad_function_call, w)
                     | Some g \<Rightarrow>
                         value_changed this val
                           (record_events [Consumer_call this (String_value s)]
                              (w\<lparr>user := g s (user w)\<rparr>)))
                | _ \<Rightarrow> Inl (Undefined_behaviour, w))
           | FloatFunction readFunction writeFunction \<Rightarrow>
               (case writeFunction of
                  None \<Rightarrow> Inl (Bad_function_call, w)
                | Some g \<Rightarrow>
                    value_changed this val
                      (record_events [Consumer_call this (Float_value (voidToFloat val))]
                         (w\<lparr>user := g (voidToFloat val) (user w)\<rparr>)))
           | IntFunction readFunction writeFunction \<Rightarrow>
               (case writeFunction of
                  None \<Rightarrow> Inl (Bad_function_call, w)
                | Some g \<Rightarrow>
                    value_changed this val
                      (record_events [Consumer_call this (Int_value val)]
                         (w\<lparr>user := g val (user w)\<rparr>)))))"

definition notify :: "payload \<Rightarrow> 'u world \<Rightarrow> 'u result" where
  "notify this w =
     (case characteristics w this of
        None \<Rightarrow> Inl (Undefined_behaviour, w)
      | Some c \<Rightarrow>
          if \<not> canRead c then Inr w
          else (case read this w of
                  Inl e \<Rightarrow> Inl e
                | Inr (new_value, w1) \<Rightarrow> value_changed this new_value w1))"

definition register_for_notifications :: "payload \<Rightarrow> nat option \<Rightarrow> 'u world \<Rightarrow> 'u result" where
  "register_for_notifications this callback w =
     (case characteristics w this of
        None \<Rightarrow> Inl (Undefined_behaviour, w)
      | Some c \<Rightarrow>
          Inr (w\<lparr>characteristics := (characteristics w)
                 (this \<mapsto> c\<lparr>value_changed_listeners :=
                               value_changed_listeners c @ [callback]\<rparr>)\<rparr>))"

definition set_event_handle :: "payload \<Rightarrow> payload \<Rightarrow> bool \<Rightarrow> 'u world \<Rightarrow> 'u result" where
  "set_event_handle this handle enable w =
     (case characteristics w this of
        None \<Rightarrow> Inl (Undefined_behaviour, w)
      | Some c \<Rightarrow>
          Inr (w\<lparr>characteristics := (characteristics w)
                 (this \<mapsto> c\<lparr>event_handle := (if enable then handle else nullptr)\<rparr>)\<rparr>))"

text \<open>The functions whose addresses go into the transfer structure.\<close>

definition read_characteristic :: "payload \<Rightarrow> 'u world \<Rightarrow> (payload, 'u) result_with" where
  "read_characteristic arg w = read arg w"

definition write_characteristic :: "payload \<Rightarrow> payload \<Rightarrow> int \<Rightarrow> 'u world \<Rightarrow> 'u result" where
  "write_characteristic arg val len w = write' arg val (nat len) w"

definition set_characteristic_event_handle ::
    "payload \<Rightarrow> payload \<Rightarrow> bool \<Rightarrow> 'u world \<Rightarrow> 'u result" where
  "set_characteristic_event_handle arg handle enable w =
     set_event_handle arg handle enable w"

text \<open>
  \<^verbatim>\<open>get_characteristic_struct\<close>: the three probes, the copy of the valid values
  (\<^verbatim>\<open>new int[n]\<close> and \<^verbatim>\<open>memcpy\<close>, one step here), then the members of the structure in
  the order of the initialiser list; the second of them is a call of \<^verbatim>\<open>read\<close>.
\<close>

definition get_characteristic_struct ::
    "payload \<Rightarrow> 'u world \<Rightarrow> (hap_characteristic_ex, 'u) result_with" where
  "get_characteristic_struct this w =
     (case characteristics w this of
        None \<Rightarrow> Inl (Undefined_behaviour, w)
      | Some c \<Rightarrow>
          (case (if fst (valid_values_override c)
                 then allocate (Int_array (snd (valid_values_override c)))
                        (record_events [Get_characteristic_struct this (accessory_handle c)] w)
                 else Inr (nullptr,
                        record_events [Get_characteristic_struct this (accessory_handle c)] w)) of
             Inl e \<Rightarrow> Inl e
           | Inr (valid_values_dyn, w1) \<Rightarrow>
               (case read this w1 of
                  Inl e \<Rightarrow> Inl e
                | Inr (current, w2) \<Rightarrow>
                    Inr (\<lparr>cs_type = type c,
                          cs_value = current,
                          cs_arg = this,
                          cs_read = (if canRead c then Some Read_characteristic else None),
                          cs_write = (if canWrite c then Some Write_characteristic else None),
                          cs_event = Some Set_characteristic_event_handle,
                          override_max_value = fst (max_value_override c),
                          max_value = snd (max_value_override c),
                          override_min_value = fst (min_value_override c),
                          min_value = snd (min_value_override c),
                          cs_reserved_flag = False,
                          cs_reserved_pointer = nullptr,
                          override_valid_values = fst (valid_values_override c),
                          valid_values_length =
                            (if fst (valid_values_override c)
                             then length (snd (valid_values_override c)) else 0),
                          valid_values = valid_values_dyn\<rparr>, w2))))"

definition delete_characteristic_struct_internals ::
    "hap_characteristic_ex \<Rightarrow> 'u world \<Rightarrow> 'u result" where
  "delete_characteristic_struct_internals cs w =
     (if override_valid_values cs \<and> valid_values cs \<noteq> nullptr
      then release (valid_values cs) w else Inr w)"

section \<open>Accessory\<close>

text \<open>
  The host returns the accessory handle and the accessory object; they are arguments
  here (\<open>host_handle\<close>, \<open>host_object\<close>), so that every statement holds for whatever the
  host answers.
\<close>

definition register_accessory :: "payload \<Rightarrow> payload \<Rightarrow> 'u world \<Rightarrow> 'u result" where
  "register_accessory this host_handle w =
     (case accessories w this of
        None \<Rightarrow> Inl (Undefined_behaviour, w)
      | Some a \<Rightarrow>
          (let w1 = (if \<not> hap_initialized w
                     then record_events [Hap_init] (w\<lparr>hap_initialized := True\<rparr>)
                     else w);
               w2 = record_events
                      [Hap_accessory_register (name a) (accessory_id a) (setup_code a)
                         (manufacturer_name a) (category a) (port a)
                         (configuration_version a) this] w1
           in Inr (w2\<lparr>accessories := (accessories w2)
                      (this \<mapsto> a\<lparr>acc_handle := host_handle\<rparr>)\<rparr>)))"

text \<open>
  The two loops of \<^verbatim>\<open>add_service\<close>: the first assigns the accessory handle to each
  characteristic and then converts it, the second releases the structures.
\<close>

fun build_structs ::
    "payload \<Rightarrow> payload list \<Rightarrow> hap_characteristic_ex list \<Rightarrow> 'u world
      \<Rightarrow> (hap_characteristic_ex list, 'u) result_with" where
  "build_structs h [] hap_cs w = Inr (hap_cs, w)"
| "build_structs h (p # ps) hap_cs w =
     (case characteristics w p of
        None \<Rightarrow> Inl (Undefined_behaviour, w)
      | Some c \<Rightarrow>
          (case get_characteristic_struct p
                  (w\<lparr>characteristics := (characteristics w)
                     (p \<mapsto> c\<lparr>accessory_handle := Some h\<rparr>)\<rparr>) of
             Inl e \<Rightarrow> Inl e
           | Inr (cs, w1) \<Rightarrow> build_structs h ps (hap_cs @ [cs]) w1))"

fun release_structs :: "hap_characteristic_ex list \<Rightarrow> 'u world \<Rightarrow> 'u result" where
  "release_structs [] w = Inr w"
| "release_structs (cs # rest) w =
     (case delete_characteristic_struct_internals cs w of
        Inl e \<Rightarrow> Inl e
      | Inr w1 \<Rightarrow> release_structs rest w1)"

definition add_service ::
    "payload \<Rightarrow> hap_service_type \<Rightarrow> payload list \<Rightarrow> 'u world \<Rightarrow> 'u result" where
  "add_service this service_type chars w =
     (case accessories w this of
        None \<Rightarrow> Inl (Undefined_behaviour, w)
      | Some a \<Rightarrow>
          (case allocate (Struct_array (length chars)) w of
             Inl e \<Rightarrow> Inl e
           | Inr (hap_cs_addr, w1) \<Rightarrow>
               (case build_structs (acc_handle a) chars [] w1 of
                  Inl e \<Rightarrow> Inl e
                | Inr (hap_cs, w2) \<Rightarrow>
                    (case release_structs hap_cs
                            (record_events
                               [Hap_service_and_characteristics_ex_add (acc_handle a)
                                  (accessory_object a) service_type hap_cs] w2) of
                       Inl e \<Rightarrow> Inl e
                     | Inr w3 \<Rightarrow> release hap_cs_addr w3))))"

fun run_init :: "payload \<Rightarrow> (hap_service_type \<times> payload list) list \<Rightarrow> 'u world \<Rightarrow> 'u result" where
  "run_init this [] w = Inr w"
| "run_init this ((service_type, chars) # rest) w =
     (case add_service this service_type chars w of
        Inl e \<Rightarrow> Inl e
      | Inr w1 \<Rightarrow> run_init this rest w1)"

definition builtin_characteristics :: "accessory \<Rightarrow> hap_characteristic list" where
  "builtin_characteristics a =
     [\<lparr>hc_type = HAP_CHARACTER_IDENTIFY, hc_value = Scalar 1, hc_arg = nullptr,
       hc_read = Some Identify_read, hc_write = None, hc_event = None\<rparr>,
      \<lparr>hc_type = HAP_CHARACTER_MANUFACTURER, hc_value = C_str (manufacturer_name a),
       hc_arg = nullptr, hc_read = None, hc_write = None, hc_event = None\<rparr>,
      \<lparr>hc_type = HAP_CHARACTER_MODEL, hc_value = C_str (model a),
       hc_arg = nullptr, hc_read = None, hc_write = None, hc_event = None\<rparr>,
      \<lparr>hc_type = HAP_CHARACTER_NAME, hc_value = C_str (name a),
       hc_arg = nullptr, hc_read = None, hc_write = None, hc_event = None\<rparr>,
      \<lparr>hc_type = HAP_CHARACTER_SERIAL_NUMBER, hc_value = C_str (serial_number a),
       hc_arg = nullptr, hc_read = None, hc_write = None, hc_event = None\<rparr>,
      \<lparr>hc_type = HAP_CHARACTER_FIRMWARE_REVISION, hc_value = C_str (firmware_version a),
       hc_arg = nullptr, hc_read = None, hc_write = None, hc_event = None\<rparr>]"

definition init_callback :: "payload \<Rightarrow> payload \<Rightarrow> 'u world \<Rightarrow> 'u result" where
  "init_callback this host_object w =
     (case accessories w this of
        None \<Rightarrow> Inl (Undefined_behaviour, w)
      | Some a \<Rightarrow>
          run_init this (init a)
            (record_events
               [Hap_accessory_add (acc_handle a),
                Hap_service_and_characteristics_add (acc_handle a) host_object
                  HAP_SERVICE_ACCESSORY_INFORMATION (builtin_characteristics a)]
               (w\<lparr>accessories := (accessories w)
                    (this \<mapsto> a\<lparr>accessory_object := host_object\<rparr>)\<rparr>)))"

definition accessory_init :: "payload \<Rightarrow> payload \<Rightarrow> 'u world \<Rightarrow> 'u result" where
  "accessory_init arg host_object w = init_callback arg host_object w"

section \<open>The process\<close>

text \<open>
  What can happen in a process, one operation at a time. The user's code may call the
  public members \<^verbatim>\<open>notify\<close>, \<^verbatim>\<open>register_for_notifications\<close> and
  \<^verbatim>\<open>register_accessory\<close>. The host may call \<^verbatim>\<open>accessory_init\<close> for an accessory that has
  been registered with it, and a function of a characteristic once it has received a
  transfer structure that holds the address of the function and of the characteristic.
  \<^verbatim>\<open>add_service\<close> is protected: it runs from the user's \<^verbatim>\<open>init\<close> hook.
\<close>

datatype operation =
    Notify payload
  | Register_for_notifications payload "nat option"
  | Register_accessory payload payload
  | Host_accessory_init payload payload
  | Host_read payload
  | Host_write payload payload int
  | Host_set_event_handle payload payload bool

fun offered ::
    "(hap_characteristic_ex \<Rightarrow> callback option) \<Rightarrow> callback \<Rightarrow> payload \<Rightarrow> event \<Rightarrow> bool" where
  "offered field f arg (Hap_service_and_characteristics_ex_add h obj service_type hap_cs) =
     list_ex (\<lambda>cs. cs_arg cs = arg \<and> field cs = Some f) hap_cs"
| "offered field f arg ev = False"

fun registered :: "payload \<Rightarrow> event \<Rightarrow> bool" where
  "registered arg (Hap_accessory_register n i s m c p v context) = (context = arg)"
| "registered arg ev = False"

fun step :: "operation \<Rightarrow> 'u world \<Rightarrow> 'u result" where
  "step (Notify this) w = notify this w"
| "step (Register_for_notifications this callback) w =
     register_for_notifications this callback w"
| "step (Register_accessory this host_handle) w = register_accessory this host_handle w"
| "step (Host_accessory_init arg host_object) w =
     (if list_ex (registered arg) (trace w) then accessory_init arg host_object w
      else Inl (Not_enabled, w))"
| "step (Host_read arg) w =
     (if list_ex (offered cs_read Read_characteristic arg) (trace w)
      then (case read_characteristic arg w of Inl e \<Rightarrow> Inl e | Inr (current, w1) \<Rightarrow> Inr w1)
      else Inl (Not_enabled, w))"
| "step (Host_write arg val len) w =
     (if list_ex (offered cs_write Write_characteristic arg) (trace w)
      then write_characteristic arg val len w
      else Inl (Not_enabled, w))"
| "step (Host_set_event_handle arg handle enable) w =
     (if list_ex (offered cs_event Set_characteristic_event_handle arg) (trace w)
      then set_characteristic_event_handle arg handle enable w
      else Inl (Not_enabled, w))"

fun run :: "operation list \<Rightarrow> 'u world \<Rightarrow> 'u result" where
  "run [] w = Inr w"
| "run (op # ops) w = (case step op w of Inl e \<Rightarrow> Inl e | Inr w1 \<Rightarrow> run ops w1)"

section \<open>Notions used in the statements\<close>

text \<open>
  The codec's round trip stays within 0.005: the value can be encoded, and decoding the
  payload gives a finite value at most 0.005 away.
\<close>

definition round_trip_within :: "float \<Rightarrow> bool" where
  "round_trip_within v =
     (case floatToVoid v of
        None \<Rightarrow> False
      | Some p \<Rightarrow>
          (case (voidToFloat p, v) of
             (Finite d, Finite x) \<Rightarrow> \<bar>d - x\<bar> \<le> 5 / 1000
           | _ \<Rightarrow> False))"


text \<open>
  What a payload means to a characteristic when it is written: the text at the address,
  the decoded floating value, or the integer. \<open>consume\<close> applies the write consumer.
\<close>

definition decoded :: "'u characteristic \<Rightarrow> 'u world \<Rightarrow> payload \<Rightarrow> typed_value option" where
  "decoded c w val =
     (case behaviour c of
        StringFunction readFunction writeFunction \<Rightarrow>
          (case heap w val of Some (Char_buffer s) \<Rightarrow> Some (String_value s) | _ \<Rightarrow> None)
      | FloatFunction readFunction writeFunction \<Rightarrow> Some (Float_value (voidToFloat val))
      | IntFunction readFunction writeFunction \<Rightarrow> Some (Int_value val))"

definition consume :: "'u characteristic \<Rightarrow> typed_value \<Rightarrow> 'u \<Rightarrow> 'u" where
  "consume c v u =
     (case (behaviour c, v) of
        (StringFunction readFunction (Some g), String_value s) \<Rightarrow> g s u
      | (FloatFunction readFunction (Some g), Float_value x) \<Rightarrow> g x u
      | (IntFunction readFunction (Some g), Int_value n) \<Rightarrow> g n u
      | _ \<Rightarrow> u)"

text \<open>
  When the read of a readable characteristic returns: there is an address left for the
  temporary text, or the floating value can be encoded.
\<close>

definition read_defined :: "'u characteristic \<Rightarrow> 'u world \<Rightarrow> bool" where
  "read_defined c w =
     (case behaviour c of
        StringFunction readFunction writeFunction \<Rightarrow> next_addr w \<noteq> nullptr
      | FloatFunction readFunction writeFunction \<Rightarrow>
          (case readFunction of None \<Rightarrow> True | Some f \<Rightarrow> floatToVoid (f (user w)) \<noteq> None)
      | IntFunction readFunction writeFunction \<Rightarrow> True)"

fun is_value_changed :: "event \<Rightarrow> bool" where
  "is_value_changed (Value_changed this new_value) = True"
| "is_value_changed ev = False"

fun is_event_response :: "event \<Rightarrow> bool" where
  "is_event_response (Hap_event_response handle event new_value) = True"
| "is_event_response ev = False"

text \<open>
  The state of the process at its start, given the objects the program constructs: the
  static flag is false, nothing has happened yet, and every object is as its constructor
  leaves it (no accessory handle assigned, a null event handle, no listeners; null
  handles in the accessories).
\<close>

definition constructed :: "'u characteristic \<Rightarrow> 'u characteristic" where
  "constructed c =
     c\<lparr>accessory_handle := None, event_handle := nullptr, value_changed_listeners := []\<rparr>"

definition constructed_accessory :: "accessory \<Rightarrow> accessory" where
  "constructed_accessory a = a\<lparr>acc_handle := nullptr, accessory_object := nullptr\<rparr>"

definition process_start :: "'u world \<Rightarrow> 'u world" where
  "process_start w =
     w\<lparr>hap_initialized := False,
       characteristics := map_option constructed \<circ> characteristics w,
       accessories := map_option constructed_accessory \<circ> accessories w,
       trace := []\<rparr>"

text \<open>The state in which an operation ended, whether it returned or failed.\<close>

fun world_of :: "'u result \<Rightarrow> 'u world" where
  "world_of (Inl (e, w)) = w"
| "world_of (Inr w) = w"

fun world_of_value :: "('a, 'u) result_with \<Rightarrow> 'u world" where
  "world_of_value (Inl (e, w)) = w"
| "world_of_value (Inr (x, w)) = w"

text \<open>
  \<open>init_before_register seen evs\<close>: every registration of an accessory with the host in
  \<open>evs\<close> comes after a global initialisation (\<open>seen\<close>: one has happened before \<open>evs\<close>).
\<close>

fun init_before_register :: "bool \<Rightarrow> event list \<Rightarrow> bool" where
  "init_before_register seen [] = True"
| "init_before_register seen (Hap_init # evs) = init_before_register True evs"
| "init_before_register seen (Hap_accessory_register n i s m c p v context # evs) =
     (seen \<and> init_before_register seen evs)"
| "init_before_register seen (ev # evs) = init_before_register seen evs"

fun is_register_accessory :: "operation \<Rightarrow> bool" where
  "is_register_accessory (Register_accessory this host_handle) = True"
| "is_register_accessory op = False"

fun enables :: "payload \<Rightarrow> operation \<Rightarrow> bool" where
  "enables this (Host_set_event_handle arg handle enable) = (arg = this \<and> enable)"
| "enables this op = False"

text \<open>
  An event that shows an accessory handle shows one that has been assigned.
\<close>

fun handle_known :: "event \<Rightarrow> bool" where
  "handle_known (Hap_event_response handle event new_value) = (handle \<noteq> None)"
| "handle_known (Get_characteristic_struct this handle) = (handle \<noteq> None)"
| "handle_known ev = True"

text \<open>
  For the proofs: what every operation other than a registration, a change of an event
  handle or of the listeners does to the state. The flag is kept; of a characteristic
  only the accessory handle changes, and an assigned one stays assigned; the new events
  are \<open>tame\<close>: no global initialisation and no registration, an event response only
  for a characteristic with an event handle, a conversion only with an assigned handle,
  and transfer structures only of characteristics whose handle is assigned.
\<close>

definition assigned :: "'u world \<Rightarrow> payload \<Rightarrow> bool" where
  "assigned w p =
     (case characteristics w p of None \<Rightarrow> False | Some c \<Rightarrow> accessory_handle c \<noteq> None)"

fun exposure_ok :: "'u world \<Rightarrow> event \<Rightarrow> bool" where
  "exposure_ok w (Hap_service_and_characteristics_ex_add h obj service_type hap_cs) =
     list_all (\<lambda>cs. assigned w (cs_arg cs)) hap_cs"
| "exposure_ok w ev = True"

fun tame :: "'u world \<Rightarrow> 'u world \<Rightarrow> event \<Rightarrow> bool" where
  "tame w w' Hap_init = False"
| "tame w w' (Hap_accessory_register n i s m c p v context) = False"
| "tame w w' (Hap_event_response handle event new_value) =
     (\<exists>p c. characteristics w p = Some c \<and> event_handle c = event \<and> event \<noteq> nullptr \<and>
            (accessory_handle c \<noteq> None \<longrightarrow> handle \<noteq> None))"
| "tame w w' (Get_characteristic_struct this handle) = (handle \<noteq> None)"
| "tame w w' ev = exposure_ok w' ev"

definition handle_grows :: "'u characteristic \<Rightarrow> 'u characteristic \<Rightarrow> bool" where
  "handle_grows c c' \<longleftrightarrow>
     (\<exists>h. c' = c\<lparr>accessory_handle := h\<rparr> \<and> (accessory_handle c \<noteq> None \<longrightarrow> h \<noteq> None))"

definition handles_grow :: "'u world \<Rightarrow> 'u world \<Rightarrow> bool" where
  "handles_grow w w' \<longleftrightarrow>
     (\<forall>p. rel_option handle_grows (characteristics w p) (characteristics w' p))"

definition advances :: "'u world \<Rightarrow> 'u world \<Rightarrow> bool" where
  "advances w w' \<longleftrightarrow>
     hap_initialized w' = hap_initialized w \<and> handles_grow w w' \<and>
     (\<exists>evs. trace w' = trace w @ evs \<and> list_all (tame w w') evs)"

definition initialised_once :: "'u world \<Rightarrow> bool" where
  "initialised_once w \<longleftrightarrow>
     count_list (trace w) Hap_init = (if hap_initialized w then 1 else 0) \<and>
     init_before_register False (trace w)"

definition handles_consistent :: "'u world \<Rightarrow> bool" where
  "handles_consistent w \<longleftrightarrow>
     (\<forall>p c. characteristics w p = Some c \<longrightarrow> event_handle c \<noteq> nullptr \<longrightarrow>
            accessory_handle c \<noteq> None) \<and>
     list_all (exposure_ok w) (trace w) \<and> list_all handle_known (trace w)"

text \<open>
  The allocator's state is well formed when every live object lies below the next
  address to be handed out (\<open>handed_out\<close>; when the next address is null, every address
  has been handed out). \<open>arrays\<close> are the addresses that the release loop of
  \<^verbatim>\<open>add_service\<close> releases. \<open>carries w p cs\<close>: the transfer structure \<open>cs\<close> is the one of
  the characteristic at \<open>p\<close>, with the count of its valid values and an array exactly
  when the override is present. \<open>overrides\<close> are the valid-values overrides of the
  characteristics, the source sequences of the arrays.
\<close>

definition handed_out :: "'u world \<Rightarrow> payload \<Rightarrow> bool" where
  "handed_out w x \<longleftrightarrow> next_addr w = nullptr \<or> x < next_addr w"

definition heap_wf :: "'u world \<Rightarrow> bool" where
  "heap_wf w \<longleftrightarrow> (\<forall>x. heap w x \<noteq> None \<longrightarrow> handed_out w x)"

definition arrays :: "hap_characteristic_ex list \<Rightarrow> payload list" where
  "arrays hap_cs =
     map valid_values (filter (\<lambda>cs. override_valid_values cs \<and> valid_values cs \<noteq> nullptr) hap_cs)"

definition carries :: "'u world \<Rightarrow> payload \<Rightarrow> hap_characteristic_ex \<Rightarrow> bool" where
  "carries w p cs =
     (case characteristics w p of
        None \<Rightarrow> False
      | Some c \<Rightarrow>
          cs_arg cs = p \<and>
          override_valid_values cs = fst (valid_values_override c) \<and>
          valid_values_length cs =
            (if fst (valid_values_override c) then length (snd (valid_values_override c)) else 0) \<and>
          (valid_values cs = nullptr) = (\<not> fst (valid_values_override c)))"

definition overrides :: "'u world \<Rightarrow> payload \<Rightarrow> (bool \<times> c_int list) option" where
  "overrides w p = map_option valid_values_override (characteristics w p)"

text \<open>
  For the proofs: a step from \<open>w\<close> to \<open>w'\<close> with the events \<open>evs\<close> that keeps the
  allocator well formed and allocates and releases only addresses handed out during the
  step.
\<close>

definition heap_step :: "'u world \<Rightarrow> 'u world \<Rightarrow> event list \<Rightarrow> bool" where
  "heap_step w w' evs \<longleftrightarrow>
     trace w' = trace w @ evs \<and> heap_wf w' \<and>
     (\<forall>x. handed_out w x \<longrightarrow> handed_out w' x) \<and>
     (\<forall>x. Allocate x \<in> set evs \<or> Release x \<in> set evs \<longrightarrow>
           \<not> handed_out w x \<and> handed_out w' x)"

text \<open>For the proofs: the events of \<open>w'\<close> begin with those of \<open>w\<close>.\<close>

definition reaches :: "'u world \<Rightarrow> 'u world \<Rightarrow> bool" where
  "reaches w w' \<longleftrightarrow> (\<exists>evs. trace w' = trace w @ evs)"

section \<open>Example states\<close>

text \<open>
  A switch kept in the user's state as an integer, with two listeners and one empty
  listener slot; a name kept as text; a thermometer. None of them has been added to a
  service yet.
\<close>

definition switch :: "c_int characteristic" where
  "switch =
     \<lparr>type = HAP_CHARACTER_OTHER 0, accessory_handle = None, event_handle = nullptr,
      value_changed_listeners = [Some 1, None, Some 2],
      behaviour = IntFunction (Some (\<lambda>u. u)) (Some (\<lambda>v u. v)),
      max_value_override = (False, 0), min_value_override = (False, 0),
      valid_values_override = (True, [0, 1])\<rparr>"

definition switch_world :: "c_int world" where
  "switch_world =
     \<lparr>hap_initialized = False, characteristics = [100 \<mapsto> switch],
      accessories = Map.empty, heap = Map.empty, next_addr = 1000, user = 1, trace = []\<rparr>"

definition name_characteristic :: "string characteristic" where
  "name_characteristic =
     \<lparr>type = HAP_CHARACTER_NAME, accessory_handle = None, event_handle = nullptr,
      value_changed_listeners = [],
      behaviour = StringFunction (Some (\<lambda>u. u)) (Some (\<lambda>v u. v)),
      max_value_override = (False, 0), min_value_override = (False, 0),
      valid_values_override = (False, [])\<rparr>"

definition name_world :: "string world" where
  "name_world =
     \<lparr>hap_initialized = False, characteristics = [100 \<mapsto> name_characteristic],
      accessories = Map.empty, heap = Map.empty, next_addr = 1000,
      user = ''Kitchen Light'', trace = []\<rparr>"

text \<open>
  A lamp whose \<^verbatim>\<open>init\<close> hook adds one service with the switch, and a second accessory
  without user services.
\<close>

definition lamp :: accessory where
  "lamp =
     \<lparr>name = ''Lamp'', accessory_id = ''AA:BB:CC:DD:EE:FF'', setup_code = ''053-58-197'',
      manufacturer_name = ''ACME'', firmware_version = ''1.0'', model = ''L1'',
      serial_number = ''0001'', category = 5, port = 811, configuration_version = 1,
      acc_handle = nullptr, accessory_object = nullptr,
      init = [(HAP_SERVICE_OTHER 1, [100])]\<rparr>"

definition lamp_world :: "c_int world" where
  "lamp_world =
     \<lparr>hap_initialized = False, characteristics = [100 \<mapsto> switch],
      accessories = [200 \<mapsto> lamp, 201 \<mapsto> lamp\<lparr>name := ''Bridge'', init := []\<rparr>],
      heap = Map.empty, next_addr = 1000, user = 1, trace = []\<rparr>"

text \<open>
  The lamp after its bring-up, with events enabled for the switch by the host.
\<close>

definition lamp_enabled :: "c_int world" where
  "lamp_enabled =
     lamp_world\<lparr>hap_initialized := True,
       characteristics := [100 \<mapsto> switch\<lparr>accessory_handle := Some 7, event_handle := 55\<rparr>],
       accessories := [200 \<mapsto> lamp\<lparr>acc_handle := 7, accessory_object := 9\<rparr>]\<rparr>"

text \<open>
  The lamp with a second characteristic that can only be written (no read supplier),
  as the identify characteristic of an accessory is.
\<close>

definition trigger :: "c_int characteristic" where
  "trigger =
     \<lparr>type = HAP_CHARACTER_OTHER 1, accessory_handle = None, event_handle = nullptr,
      value_changed_listeners = [],
      behaviour = IntFunction None (Some (\<lambda>v u. u)),
      max_value_override = (False, 0), min_value_override = (False, 0),
      valid_values_override = (False, [])\<rparr>"

definition service_world :: "c_int world" where
  "service_world = lamp_enabled\<lparr>characteristics := [100 \<mapsto> switch, 101 \<mapsto> trigger]\<rparr>"

section \<open>Properties of the rounding\<close>

lemma find_exp_below:
  assumes "a < 2 powi (j + 1)"
  shows "e - int k \<le> j \<Longrightarrow> find_exp a e k \<le> j"
proof (induction k arbitrary: e)
  case 0
  then show ?case by simp
next
  case (Suc k)
  show ?case
  proof (cases "(2::real) powi e \<le> a")
    case True
    then have "(2::real) powi e < 2 powi (j + 1)"
      using assms by simp
    then have "e < j + 1"
      by (metis linorder_not_less power_int_increasing one_le_numeral)
    then show ?thesis using True by simp
  next
    case False
    then show ?thesis using Suc.IH [of "e - 1"] Suc.prems by simp
  qed
qed

lemma find_exp_eq:
  assumes "2 powi e' \<le> a" and "a < 2 powi (e' + 1)"
  shows "e' \<le> e \<Longrightarrow> e - int k \<le> e' \<Longrightarrow> find_exp a e k = e'"
proof (induction k arbitrary: e)
  case 0
  then show ?case by simp
next
  case (Suc k)
  show ?case
  proof (cases "e = e'")
    case True
    then show ?thesis using assms(1) by simp
  next
    case False
    then have "e' + 1 \<le> e" using Suc.prems by simp
    then have "(2::real) powi (e' + 1) \<le> 2 powi e"
      by (intro power_int_increasing) auto
    then have "\<not> 2 powi e \<le> a" using assms(2) by simp
    moreover have "find_exp a (e - 1) k = e'"
      using Suc.prems False by (intro Suc.IH) auto
    ultimately show ?thesis by simp
  qed
qed

lemma fl_eval:
  assumes "2 powi e \<le> \<bar>x\<bar>" and "\<bar>x\<bar> < 2 powi (e + 1)" and "- 126 \<le> e" and "e \<le> 127"
  shows "fl x = (let r = of_int (rne (x / 2 powi (e - 23))) * 2 powi (e - 23)
                 in if 2 powi 128 \<le> \<bar>r\<bar> then NotFinite else Finite r)"
proof -
  have "find_exp \<bar>x\<bar> 127 253 = e"
    using assms by (intro find_exp_eq) auto
  then show ?thesis by (simp add: fl_def Let_def)
qed

lemma rne_error: "\<bar>of_int (rne x) - x\<bar> \<le> 1 / 2"
proof -
  have "of_int \<lfloor>x\<rfloor> \<le> x" and "x < of_int \<lfloor>x\<rfloor> + 1"
    by linarith+
  then show ?thesis
    unfolding rne_def Let_def by (simp add: abs_if) linarith
qed

lemma rne_of_int: "rne (of_int k) = k"
  by (simp add: rne_def)

lemma fl_error:
  assumes bound: "\<bar>x\<bar> < 2 powi (j + 1)" and lo: "- 126 \<le> j" and hi: "j \<le> 126"
  shows "\<exists>r. fl x = Finite r \<and> \<bar>r - x\<bar> \<le> 2 powi (j - 24)"
proof -
  define e where "e = find_exp \<bar>x\<bar> 127 253"
  define q :: real where "q = 2 powi (e - 23)"
  define r where "r = of_int (rne (x / q)) * q"
  have e_le: "e \<le> j"
    unfolding e_def using bound by (rule find_exp_below) (use lo in simp)
  have q_pos: "0 < q"
    by (simp add: q_def)
  have "r - x = (of_int (rne (x / q)) - x / q) * q"
    using q_pos by (simp add: r_def left_diff_distrib)
  then have "\<bar>r - x\<bar> = \<bar>of_int (rne (x / q)) - x / q\<bar> * q"
    using q_pos by (simp add: abs_mult)
  also have "\<dots> \<le> 1 / 2 * q"
    using rne_error [of "x / q"] q_pos by (intro mult_right_mono) auto
  also have "\<dots> = 2 powi (e - 24)"
    by (simp add: q_def power_int_diff)
  also have "\<dots> \<le> 2 powi (j - 24)"
    using e_le by (intro power_int_increasing) auto
  finally have err: "\<bar>r - x\<bar> \<le> 2 powi (j - 24)" .
  have "(2::real) powi (j - 24) \<le> 2 powi (j + 1)"
    by (intro power_int_increasing) auto
  then have "\<bar>r\<bar> < 2 powi (j + 1) + 2 powi (j + 1)"
    using err bound by linarith
  also have "\<dots> = (2::real) powi (j + 2)"
    by (simp add: power_int_add)
  also have "\<dots> \<le> 2 powi 128"
    using hi by (intro power_int_increasing) auto
  finally have "\<not> 2 powi 128 \<le> \<bar>r\<bar>" by simp
  then have "fl x = Finite r"
    unfolding fl_def Let_def r_def q_def e_def by simp
  with err show ?thesis by blast
qed

lemma fl_of_int:
  assumes "\<bar>n\<bar> < 2 ^ 24"
  shows "fl (of_int n) = Finite (of_int n)"
proof -
  define e where "e = find_exp \<bar>of_int n\<bar> 127 253"
  define k where "k = nat (23 - e)"
  have small: "\<bar>of_int n :: real\<bar> < 2 ^ 24"
  proof -
    have "(of_int \<bar>n\<bar> :: real) < of_int (2 ^ 24)"
      using assms by (simp only: of_int_less_iff)
    then show ?thesis by simp
  qed
  then have "\<bar>of_int n :: real\<bar> < 2 powi (23 + 1)"
    by simp
  then have "e \<le> 23"
    unfolding e_def by (rule find_exp_below) simp
  then have q: "(2::real) powi (e - 23) = 1 / 2 ^ k"
    by (simp add: k_def power_int_def field_simps)
  have "of_int n / (1 / 2 ^ k) = (of_int (n * 2 ^ k) :: real)"
    by simp
  then have r: "of_int (rne (of_int n / (1 / 2 ^ k))) * (1 / 2 ^ k) = (of_int n :: real)"
    by (simp only: rne_of_int) simp
  have "\<not> 2 powi 128 \<le> \<bar>of_int n :: real\<bar>"
    using small by simp
  then show ?thesis
    unfolding fl_def Let_def e_def [symmetric] q r by simp
qed

lemma c_round_near:
  assumes "\<bar>y - of_int n\<bar> < 1 / 2"
  shows "c_round (Finite y) = Finite (of_int n)"
proof -
  have "\<lfloor>y + 1 / 2\<rfloor> = n"
    using assms by (intro floor_unique) (auto simp: abs_if split: if_splits)
  moreover have "y < 0 \<Longrightarrow> \<lceil>y - 1 / 2\<rceil> = n"
    using assms by (intro ceiling_unique) (auto simp: abs_if split: if_splits)
  ultimately show ?thesis
    by (simp add: c_round_def)
qed

lemma float_to_int_of_int:
  assumes "- (2 ^ 31) \<le> n" and "n < 2 ^ 31"
  shows "float_to_int (Finite (of_int n)) = Some n"
  using assms by (simp add: float_to_int_def)

lemma decode_below:
  assumes "\<bar>n\<bar> < 6553600"
  shows "\<exists>v. float_div (int_to_float n) (Finite 100) = Finite v \<and>
             floatToVoid (Finite v) = Some (word_of_int n)"
proof -
  have conv: "int_to_float n = Finite (of_int n)"
    unfolding int_to_float_def using assms by (intro fl_of_int) simp
  have "\<bar>of_int n / 100 :: real\<bar> < 2 powi (15 + 1)"
  proof -
    have "(of_int \<bar>n\<bar> :: real) < of_int 6553600"
      using assms by (simp only: of_int_less_iff)
    then show ?thesis by simp
  qed
  then obtain v where v: "fl (of_int n / 100) = Finite v"
    and v_err: "\<bar>v - of_int n / 100\<bar> \<le> 2 powi (15 - 24)"
    using fl_error [of "of_int n / 100" 15] by auto
  have abs_n: "\<bar>of_int n :: real\<bar> \<le> 6553599"
  proof -
    have "\<bar>n\<bar> \<le> 6553599" using assms by simp
    then have "(of_int \<bar>n\<bar> :: real) \<le> of_int 6553599"
      by (simp only: of_int_le_iff)
    then show ?thesis by simp
  qed
  have v_err': "\<bar>v * 100 - of_int n\<bar> \<le> 100 / 512"
    using v_err by (simp add: power_int_minus field_simps abs_if split: if_splits)
  then have "\<bar>v * 100\<bar> < 2 powi (22 + 1)"
    using abs_n by (simp add: abs_if split: if_splits)
  then obtain y where y: "fl (v * 100) = Finite y"
    and y_err: "\<bar>y - v * 100\<bar> \<le> 2 powi (22 - 24)"
    using fl_error [of "v * 100" 22] by auto
  have "\<bar>y - of_int n\<bar> < 1 / 2"
    using y_err v_err' by (simp add: power_int_minus abs_if split: if_splits)
  then have "c_round (Finite y) = Finite (of_int n)"
    by (rule c_round_near)
  moreover have "float_to_int (Finite (of_int n)) = Some n"
    using assms by (intro float_to_int_of_int) auto
  ultimately have "floatToVoid (Finite v) = Some (word_of_int n)"
    by (simp add: floatToVoid_def float_mul_def y)
  moreover have "float_div (int_to_float n) (Finite 100) = Finite v"
    by (simp add: float_div_def conv v)
  ultimately show ?thesis by blast
qed

lemma decode_65536:
  "float_div (int_to_float 6553600) (Finite 100) = Finite 65536"
  "float_div (int_to_float (- 6553600)) (Finite 100) = Finite (- 65536)"
  "float_div (int_to_float 6553601) (Finite 100) = Finite (8388609 / 128)"
  "float_div (int_to_float (- 6553601)) (Finite 100) = Finite (- (8388609 / 128))"
  using fl_of_int [of 6553600] fl_of_int [of "- 6553600"]
    fl_of_int [of 6553601] fl_of_int [of "- 6553601"]
    fl_eval [of 16 65536] fl_eval [of 16 "- 65536"]
    fl_eval [of 16 "6553601 / 100"] fl_eval [of 16 "- (6553601 / 100)"]
  by (simp_all add: float_div_def int_to_float_def rne_def Let_def)

lemma encode_65536:
  "floatToVoid (Finite 65536) = Some 6553600"
  "floatToVoid (Finite (- 65536)) = Some (- 6553600)"
  "floatToVoid (Finite (8388609 / 128)) = Some 6553601"
  "floatToVoid (Finite (- (8388609 / 128))) = Some (- 6553601)"
  using fl_eval [of 22 6553600] fl_eval [of 22 "- 6553600"]
    fl_eval [of 22 "8388609 / 128 * 100"] fl_eval [of 22 "- (8388609 / 128) * 100"]
  by (simp_all add: floatToVoid_def float_mul_def c_round_def float_to_int_def rne_def Let_def)

lemma decode_encode:
  assumes "\<bar>sint p\<bar> \<le> 6553601"
  shows "\<exists>v. voidToFloat p = Finite v \<and> floatToVoid (Finite v) = Some p"
proof -
  have p: "word_of_int (sint p) = p"
    by simp
  consider "\<bar>sint p\<bar> < 6553600" | "sint p = 6553600" | "sint p = - 6553600"
    | "sint p = 6553601" | "sint p = - 6553601"
    using assms by linarith
  then show ?thesis
  proof cases
    case 1
    then show ?thesis
      using decode_below [of "sint p"] by (simp add: voidToFloat_def)
  next
    case 2
    then have "voidToFloat p = Finite 65536" and "p = 6553600"
      using p decode_65536(1) by (simp_all add: voidToFloat_def)
    then show ?thesis
      using encode_65536(1) by blast
  next
    case 3
    then have "voidToFloat p = Finite (- 65536)" and "p = - 6553600"
      using p decode_65536(2) by (simp_all add: voidToFloat_def)
    then show ?thesis
      using encode_65536(2) by blast
  next
    case 4
    then have "voidToFloat p = Finite (8388609 / 128)" and "p = 6553601"
      using p decode_65536(3) by (simp_all add: voidToFloat_def)
    then show ?thesis
      using encode_65536(3) by blast
  next
    case 5
    then have "voidToFloat p = Finite (- (8388609 / 128))" and "p = - 6553601"
      using p decode_65536(4) by (simp_all add: voidToFloat_def)
    then show ?thesis
      using encode_65536(4) by blast
  qed
qed

lemma encode_21_5: "floatToVoid (Finite (43 / 2)) = Some 2150"
  using fl_eval [of 11 "43 / 2 * 100"]
  by (simp add: floatToVoid_def float_mul_def c_round_def float_to_int_def rne_def Let_def)

section \<open>The codec of the floating characteristics\<close>

text \<open>
  C1, as amended. Every payload whose \<^verbatim>\<open>int\<close> value \<open>n\<close> has magnitude at most 6553601
  decodes to a value that encodes back to the same payload; so for each of these values
  \<open>v\<close> (the binary32 value nearest to \<open>n / 100\<close>) decoding the encoding of \<open>v\<close> gives \<open>v\<close>
  itself. Encoding 21.5 gives the integer 2150.
\<close>

theorem float_codec_round_trip:
  assumes "\<bar>sint p\<bar> \<le> 6553601"
  shows "floatToVoid (voidToFloat p) = Some p \<and> round_trip_within (voidToFloat p) \<and>
         floatToVoid (Finite (43 / 2)) = Some 2150"
proof -
  obtain v where "voidToFloat p = Finite v" and "floatToVoid (Finite v) = Some p"
    using decode_encode [OF assms] by blast
  then show ?thesis
    by (simp add: round_trip_within_def encode_21_5)
qed

text \<open>The amended statement at the payload 2150, which decodes to 21.5.\<close>

theorem float_codec_round_trip_witness:
  "\<bar>sint (2150 :: payload)\<bar> \<le> 6553601 \<and> voidToFloat 2150 = Finite (43 / 2) \<and>
   floatToVoid (voidToFloat 2150) = Some 2150 \<and> round_trip_within (voidToFloat 2150)"
proof -
  have h: "\<bar>sint (2150 :: payload)\<bar> \<le> 6553601"
    by simp
  have "voidToFloat 2150 = Finite (43 / 2)"
    using fl_of_int [of 2150] fl_eval [of 4 "2150 / 100"]
    by (simp add: voidToFloat_def float_div_def int_to_float_def rne_def Let_def)
  then show ?thesis
    using h float_codec_round_trip [OF h] by simp
qed

text \<open>
  C1 as stated fails, whichever values count as representable at 0.01 resolution.
  The payload 6553602 decodes to 65536.0234375, which encodes to 6553603 and comes back
  as 65536.03125, 0.0078125 away. The binary32 value 168244.75 is 16824475 hundredths
  exactly; it encodes to 16824476 and comes back as 168244.765625. The binary32 value
  29.674999237060546875 comes back as 29.6800003051757812, more than 0.005 away.
\<close>

theorem float_codec_round_trip_counterexample:
  "voidToFloat 6553602 = Finite (8388611 / 128) \<and>
   \<not> round_trip_within (voidToFloat 6553602) \<and>
   is_float32 (672979 / 4) \<and> 672979 / 4 * 100 = (16824475 :: real) \<and>
   \<not> round_trip_within (Finite (672979 / 4)) \<and>
   is_float32 (7779123 / 262144) \<and>
   \<not> round_trip_within (Finite (7779123 / 262144))"
proof -
  have d1: "voidToFloat 6553602 = Finite (8388611 / 128)"
    using fl_of_int [of 6553602] fl_eval [of 16 "6553602 / 100"]
    by (simp add: voidToFloat_def float_div_def int_to_float_def rne_def Let_def)
  have e1: "floatToVoid (Finite (8388611 / 128)) = Some 6553603"
    using fl_eval [of 22 "8388611 / 128 * 100"]
    by (simp add: floatToVoid_def float_mul_def c_round_def float_to_int_def rne_def Let_def)
  have d1': "voidToFloat 6553603 = Finite (2097153 / 32)"
    using fl_of_int [of 6553603] fl_eval [of 16 "6553603 / 100"]
    by (simp add: voidToFloat_def float_div_def int_to_float_def rne_def Let_def)
  have r1: "\<not> round_trip_within (voidToFloat 6553602)"
    by (simp add: round_trip_within_def d1 e1 d1')
  have f2: "is_float32 (672979 / 4)"
    using fl_eval [of 17 "672979 / 4"] by (simp add: is_float32_def rne_def Let_def)
  have e2: "floatToVoid (Finite (672979 / 4)) = Some 16824476"
    using fl_eval [of 24 "672979 / 4 * 100"]
    by (simp add: floatToVoid_def float_mul_def c_round_def float_to_int_def rne_def Let_def)
  have d2: "voidToFloat 16824476 = Finite (10767665 / 64)"
    using fl_eval [of 24 16824476] fl_eval [of 17 "16824476 / 100"]
    by (simp add: voidToFloat_def float_div_def int_to_float_def rne_def Let_def)
  have r2: "\<not> round_trip_within (Finite (672979 / 4))"
    by (simp add: round_trip_within_def e2 d2)
  have f3: "is_float32 (7779123 / 262144)"
    using fl_eval [of 4 "7779123 / 262144"] by (simp add: is_float32_def rne_def Let_def)
  have e3: "floatToVoid (Finite (7779123 / 262144)) = Some 2968"
    using fl_eval [of 11 "7779123 / 262144 * 100"]
    by (simp add: floatToVoid_def float_mul_def c_round_def float_to_int_def rne_def Let_def)
  have d3: "voidToFloat 2968 = Finite (3890217 / 131072)"
    using fl_of_int [of 2968] fl_eval [of 4 "2968 / 100"]
    by (simp add: voidToFloat_def float_div_def int_to_float_def rne_def Let_def)
  have r3: "\<not> round_trip_within (Finite (7779123 / 262144))"
    by (simp add: round_trip_within_def e3 d3)
  show ?thesis
    using d1 r1 f2 r2 f3 r3 by simp
qed

section \<open>Capabilities of the functional characteristics\<close>

text \<open>
  C3. For each of the three functional forms, \<^verbatim>\<open>canRead\<close> holds exactly when the read
  supplier is set and \<^verbatim>\<open>canWrite\<close> exactly when the write consumer is set, whatever the
  other members of the characteristic are.
\<close>

theorem capabilities_mirror_closures:
  "canRead (c\<lparr>behaviour := StringFunction string_reader string_writer\<rparr>) =
     (string_reader \<noteq> None) \<and>
   canWrite (c\<lparr>behaviour := StringFunction string_reader string_writer\<rparr>) =
     (string_writer \<noteq> None) \<and>
   canRead (c\<lparr>behaviour := FloatFunction float_reader float_writer\<rparr>) =
     (float_reader \<noteq> None) \<and>
   canWrite (c\<lparr>behaviour := FloatFunction float_reader float_writer\<rparr>) =
     (float_writer \<noteq> None) \<and>
   canRead (c\<lparr>behaviour := IntFunction int_reader int_writer\<rparr>) =
     (int_reader \<noteq> None) \<and>
   canWrite (c\<lparr>behaviour := IntFunction int_reader int_writer\<rparr>) =
     (int_writer \<noteq> None)"
  by (simp add: canRead_def canWrite_def)

section \<open>Dispatch of value changes\<close>

lemma call_listeners_no_dispatch:
  "list_all (\<lambda>e. \<not> is_value_changed e \<and> \<not> is_event_response e) (call_listeners this ls)"
  by (induction this ls rule: call_listeners.induct) auto

lemma count_call_listeners:
  "count_list (call_listeners this ls) (Listener_call l this) = count_list ls (Some l)"
  by (induction this ls rule: call_listeners.induct) auto

lemma set_call_listeners:
  "set (call_listeners this ls) = {Listener_call l this |l. Some l \<in> set ls}"
  by (induction this ls rule: call_listeners.induct) auto

text \<open>
  C2. A write to a writable characteristic of any of the three kinds, with any payload
  that the characteristic can decode (for a textual one: the address of a text), first
  applies the consumer to the decoded value and then enters \<^verbatim>\<open>value_changed\<close> exactly
  once, where every listener is called as often as it is registered. Nothing compares
  the new value with the old one: the statement holds in every state.
\<close>

theorem write_dispatches_once:
  assumes "characteristics w this = Some c" and "canWrite c" and "decoded c w val = Some v"
  shows "\<exists>evs. write' this val len w =
           Inr (w\<lparr>user := consume c v (user w),
                  trace := trace w @ Consumer_call this v # Value_changed this val # evs\<rparr>) \<and>
         list_all (\<lambda>e. \<not> is_value_changed e) evs \<and>
         (\<forall>l. count_list evs (Listener_call l this) =
                count_list (value_changed_listeners c) (Some l))"
proof -
  define evs where "evs =
    (if event_handle c \<noteq> nullptr
     then [Hap_event_response (accessory_handle c) (event_handle c) val] else []) @
    call_listeners this (value_changed_listeners c)"
  have no_dispatch: "list_all (\<lambda>e. \<not> is_value_changed e) evs"
    using call_listeners_no_dispatch [of this "value_changed_listeners c"]
    by (auto simp: evs_def list_all_iff)
  have counts: "count_list evs (Listener_call l this) =
      count_list (value_changed_listeners c) (Some l)" for l
    by (simp add: evs_def count_call_listeners)
  have "write' this val len w =
      Inr (w\<lparr>user := consume c v (user w),
             trace := trace w @ Consumer_call this v # Value_changed this val # evs\<rparr>)"
    using assms
    by (auto simp: write'_def value_changed_def record_events_def canWrite_def decoded_def
        consume_def evs_def split: behaviour.splits option.splits heap_obj.splits)
  with no_dispatch counts show ?thesis by blast
qed

text \<open>
  The switch already holds 1; writing 1 again still dispatches once to both listeners.
\<close>

theorem write_dispatches_once_witness:
  "characteristics switch_world 100 = Some switch \<and> canWrite switch \<and>
   decoded switch switch_world 1 = Some (Int_value 1) \<and>
   consume switch (Int_value 1) (user switch_world) = user switch_world \<and>
   write' 100 1 4 switch_world =
     Inr (switch_world\<lparr>trace := [Consumer_call 100 (Int_value 1), Value_changed 100 1,
                                  Listener_call 1 100, Listener_call 2 100]\<rparr>)"
proof -
  have h1: "characteristics switch_world 100 = Some switch"
    by (simp add: switch_world_def)
  have h2: "canWrite switch"
    by (simp add: canWrite_def switch_def)
  have h3: "decoded switch switch_world 1 = Some (Int_value 1)"
    by (simp add: decoded_def switch_def)
  have h4: "consume switch (Int_value 1) (user switch_world) = user switch_world"
    by (simp add: consume_def switch_def switch_world_def)
  obtain evs where
    w: "write' 100 1 4 switch_world =
          Inr (switch_world\<lparr>user := consume switch (Int_value 1) (user switch_world),
                 trace := trace switch_world @
                   Consumer_call 100 (Int_value 1) # Value_changed 100 1 # evs\<rparr>)"
    using write_dispatches_once [OF h1 h2 h3, of 4] by blast
  have "write' 100 1 4 switch_world =
     Inr (switch_world\<lparr>trace := [Consumer_call 100 (Int_value 1), Value_changed 100 1,
                                  Listener_call 1 100, Listener_call 2 100]\<rparr>)"
    using w h1
    by (simp add: write'_def value_changed_def record_events_def switch_def switch_world_def)
  with h1 h2 h3 h4 show ?thesis by simp
qed

lemma read_returns:
  assumes "characteristics w this = Some c" and "canRead c" and "read_defined c w"
  shows "\<exists>current w1 evs. read this w = Inr (current, w1) \<and>
           characteristics w1 = characteristics w \<and> trace w1 = trace w @ evs \<and>
           set evs \<subseteq> {Supplier_call this} \<union> range Allocate \<union> range Release"
  using assms
  by (auto simp: read_def canRead_def read_defined_def allocate_def release_def
      record_events_def split: behaviour.splits option.splits)

text \<open>
  C4. \<^verbatim>\<open>notify\<close> calls every registered listener (as often as it is registered) when
  \<^verbatim>\<open>canRead\<close> holds and none when it does not; and while the event handle is null none
  of the events of the call is a call of the host's event response.
\<close>

theorem notify_calls_listeners_iff_readable:
  assumes "characteristics w this = Some c" and "read_defined c w"
  shows "\<exists>w' evs. notify this w = Inr w' \<and> trace w' = trace w @ evs \<and>
           (\<forall>l. count_list evs (Listener_call l this) =
                  (if canRead c then count_list (value_changed_listeners c) (Some l) else 0)) \<and>
           (event_handle c = nullptr \<longrightarrow> list_all (\<lambda>e. \<not> is_event_response e) evs)"
proof (cases "canRead c")
  case False
  then have "notify this w = Inr w"
    using assms(1) by (simp add: notify_def)
  then show ?thesis
    using False by (intro exI [of _ w] exI [of _ "[]"]) simp
next
  case True
  then obtain current w1 revs where r: "read this w = Inr (current, w1)"
    and c1: "characteristics w1 = characteristics w" and t1: "trace w1 = trace w @ revs"
    and revs: "set revs \<subseteq> {Supplier_call this} \<union> range Allocate \<union> range Release"
    using read_returns [OF assms(1) _ assms(2)] by blast
  define devs where "devs =
    Value_changed this current #
    (if event_handle c \<noteq> nullptr
     then [Hap_event_response (accessory_handle c) (event_handle c) current] else []) @
    call_listeners this (value_changed_listeners c)"
  have n: "notify this w = Inr (record_events devs w1)"
    using assms(1) True r c1 by (simp add: notify_def value_changed_def devs_def)
  have t: "trace (record_events devs w1) = trace w @ (revs @ devs)"
    by (simp add: record_events_def t1)
  have cnt: "count_list (revs @ devs) (Listener_call l this) =
      count_list (value_changed_listeners c) (Some l)" for l
  proof -
    have "count_list revs (Listener_call l this) = 0"
      using revs by (auto simp: count_list_0_iff)
    then show ?thesis
      by (simp add: devs_def count_call_listeners)
  qed
  have "list_all (\<lambda>e. \<not> is_event_response e) (revs @ devs)" if "event_handle c = nullptr"
  proof -
    have "list_all (\<lambda>e. \<not> is_event_response e) revs"
      using revs by (auto simp: list_all_iff)
    moreover have "list_all (\<lambda>e. \<not> is_event_response e) devs"
      using that call_listeners_no_dispatch [of this "value_changed_listeners c"]
      by (auto simp: devs_def list_all_iff)
    ultimately show ?thesis by simp
  qed
  with n t cnt True show ?thesis
    by (intro exI [of _ "record_events devs w1"] exI [of _ "revs @ devs"]) simp
qed

theorem notify_calls_listeners_iff_readable_witness:
  "characteristics switch_world 100 = Some switch \<and> read_defined switch switch_world \<and>
   canRead switch \<and> event_handle switch = nullptr \<and>
   notify 100 switch_world =
     Inr (switch_world\<lparr>trace := [Supplier_call 100, Value_changed 100 1,
                                  Listener_call 1 100, Listener_call 2 100]\<rparr>)"
proof -
  have h1: "characteristics switch_world 100 = Some switch"
    by (simp add: switch_world_def)
  have h2: "read_defined switch switch_world"
    by (simp add: read_defined_def switch_def)
  have h3: "canRead switch" "event_handle switch = nullptr"
    by (simp_all add: canRead_def switch_def)
  obtain w' evs where "notify 100 switch_world = Inr w'"
      and "trace w' = trace switch_world @ evs"
    using notify_calls_listeners_iff_readable [OF h1 h2] by blast
  then have "notify 100 switch_world =
     Inr (switch_world\<lparr>trace := [Supplier_call 100, Value_changed 100 1,
                                  Listener_call 1 100, Listener_call 2 100]\<rparr>)"
    using h1
    by (simp add: notify_def read_def value_changed_def record_events_def canRead_def
        switch_def switch_world_def)
  with h1 h2 h3 show ?thesis by simp
qed

section \<open>The address returned by a textual read\<close>

lemma textual_read_dangles:
  assumes "characteristics w this = Some c"
    and "behaviour c = StringFunction readFunction writeFunction"
    and "read this w = Inr (address, w1)"
  shows "heap w1 address = None"
  using assms
  by (auto simp: read_def allocate_def release_def record_events_def
      split: option.splits if_splits)

text \<open>
  C9. The read of the textual characteristic whose supplier returns the text
  ``Kitchen Light'': the text is put into a temporary buffer at address 1000, the buffer
  is released before the read returns, and 1000 is returned. No object lives at the
  returned address.
\<close>

theorem textual_read_returns_released_address:
  "read 100 name_world =
     Inr (1000, name_world\<lparr>next_addr := 1001,
                  trace := [Supplier_call 100, Allocate 1000, Release 1000]\<rparr>) \<and>
   heap (name_world\<lparr>next_addr := 1001,
           trace := [Supplier_call 100, Allocate 1000, Release 1000]\<rparr>) 1000 = None"
  by (simp add: read_def allocate_def release_def record_events_def name_world_def
      name_characteristic_def)

section \<open>How the operations advance the state\<close>

lemma handle_grows_refl: "handle_grows c c"
  by (auto simp: handle_grows_def intro: exI [of _ "accessory_handle c"])

lemma handle_grows_trans: "handle_grows c c1 \<Longrightarrow> handle_grows c1 c2 \<Longrightarrow> handle_grows c c2"
  by (auto simp: handle_grows_def)

lemma handle_grows_fields:
  assumes "handle_grows c c'"
  shows "event_handle c' = event_handle c"
    and "value_changed_listeners c' = value_changed_listeners c"
    and "accessory_handle c \<noteq> None \<Longrightarrow> accessory_handle c' \<noteq> None"
  using assms by (auto simp: handle_grows_def)

lemma handles_grow_refl: "handles_grow w w"
  by (simp add: handles_grow_def option.rel_refl handle_grows_refl)

lemma handles_grow_same: "characteristics w' = characteristics w \<Longrightarrow> handles_grow w w'"
  by (simp add: handles_grow_def option.rel_refl handle_grows_refl)

lemma handles_grow_trans:
  assumes "handles_grow w w1" and "handles_grow w1 w2"
  shows "handles_grow w w2"
  unfolding handles_grow_def
proof
  fix p
  have "rel_option handle_grows (characteristics w p) (characteristics w1 p)"
    and "rel_option handle_grows (characteristics w1 p) (characteristics w2 p)"
    using assms by (simp_all add: handles_grow_def)
  then show "rel_option handle_grows (characteristics w p) (characteristics w2 p)"
    by (cases "characteristics w p"; cases "characteristics w1 p"; cases "characteristics w2 p")
      (auto intro: handle_grows_trans)
qed

lemma handles_grow_Some:
  assumes "handles_grow w w'" and "characteristics w p = Some c"
  shows "\<exists>c'. characteristics w' p = Some c' \<and> handle_grows c c'"
proof -
  have "rel_option handle_grows (characteristics w p) (characteristics w' p)"
    using assms(1) by (simp add: handles_grow_def)
  then show ?thesis
    using assms(2) by (cases "characteristics w' p") auto
qed

lemma handles_grow_Some_back:
  assumes "handles_grow w w'" and "characteristics w' p = Some c'"
  shows "\<exists>c. characteristics w p = Some c \<and> handle_grows c c'"
proof -
  have "rel_option handle_grows (characteristics w p) (characteristics w' p)"
    using assms(1) by (simp add: handles_grow_def)
  then show ?thesis
    using assms(2) by (cases "characteristics w p") auto
qed

lemma assigned_grow: "handles_grow w w' \<Longrightarrow> assigned w p \<Longrightarrow> assigned w' p"
  using handles_grow_Some [of w w' p]
  by (auto simp: assigned_def split: option.splits dest: handle_grows_fields(3))

lemma exposure_ok_mono:
  assumes "\<And>p. assigned w p \<Longrightarrow> assigned w' p" and "exposure_ok w ev"
  shows "exposure_ok w' ev"
  using assms by (cases ev) (auto simp: list_all_iff)

lemma exposure_ok_grow: "handles_grow w w' \<Longrightarrow> exposure_ok w ev \<Longrightarrow> exposure_ok w' ev"
  using assigned_grow exposure_ok_mono by blast

lemma tame_later:
  assumes "handles_grow w1 w2" and "tame w w1 ev"
  shows "tame w w2 ev"
  using assms exposure_ok_grow [OF assms(1), of ev] by (cases ev) auto

lemma tame_earlier:
  assumes "handles_grow w w1" and "tame w1 w2 ev"
  shows "tame w w2 ev"
proof (cases ev)
  case (Hap_event_response handle event new_value)
  then obtain p c1 where c1: "characteristics w1 p = Some c1" "event_handle c1 = event"
      "event \<noteq> nullptr" "accessory_handle c1 \<noteq> None \<longrightarrow> handle \<noteq> None"
    using assms(2) by auto
  then obtain c where "characteristics w p = Some c" "handle_grows c c1"
    using handles_grow_Some_back [OF assms(1)] by blast
  then show ?thesis
    using c1 Hap_event_response handle_grows_fields [of c c1] by auto
qed (use assms(2) in auto)

lemma advances_refl: "advances w w"
  by (simp add: advances_def handles_grow_refl)

lemma advances_trans:
  assumes "advances w w1" and "advances w1 w2"
  shows "advances w w2"
proof -
  obtain evs1 evs2 where e1: "trace w1 = trace w @ evs1" "list_all (tame w w1) evs1"
    and e2: "trace w2 = trace w1 @ evs2" "list_all (tame w1 w2) evs2"
    and g1: "handles_grow w w1" and g2: "handles_grow w1 w2"
    using assms by (auto simp: advances_def)
  have "list_all (tame w w2) evs1"
    using e1(2) tame_later [OF g2] by (auto simp: list_all_iff)
  moreover have "list_all (tame w w2) evs2"
    using e2(2) tame_earlier [OF g1] by (auto simp: list_all_iff)
  ultimately have "trace w2 = trace w @ (evs1 @ evs2) \<and> list_all (tame w w2) (evs1 @ evs2)"
    using e1(1) e2(1) by simp
  then show ?thesis
    using assms handles_grow_trans [OF g1 g2] unfolding advances_def by metis
qed

lemma advances_events:
  assumes "characteristics w' = characteristics w" and "hap_initialized w' = hap_initialized w"
    and "trace w' = trace w @ evs" and "list_all (tame w w') evs"
  shows "advances w w'"
  using assms by (auto simp: advances_def handles_grow_same)

lemma tame_call_listeners: "list_all (tame w w') (call_listeners this ls)"
  by (induction this ls rule: call_listeners.induct) auto

lemma allocate_advances: "allocate obj w = Inr (a, w') \<Longrightarrow> advances w w'"
  by (rule advances_events [where evs = "[Allocate a]"])
    (auto simp: allocate_def split: if_splits)

lemma release_advances: "release a w = Inr w' \<Longrightarrow> advances w w'"
  by (rule advances_events [where evs = "[Release a]"])
    (auto simp: release_def split: if_splits)

lemma record_events_advances:
  "list_all (tame w (record_events evs w)) evs \<Longrightarrow> advances w (record_events evs w)"
  by (rule advances_events [where evs = evs]) (auto simp: record_events_def)

lemma value_changed_advances:
  assumes "value_changed this new_value w = Inr w'"
  shows "advances w w'"
proof -
  obtain c where c: "characteristics w this = Some c"
    using assms by (auto simp: value_changed_def split: option.splits)
  define evs where "evs =
    Value_changed this new_value #
    (if event_handle c \<noteq> nullptr
     then [Hap_event_response (accessory_handle c) (event_handle c) new_value] else []) @
    call_listeners this (value_changed_listeners c)"
  have w': "w' = record_events evs w"
    using assms c by (simp add: value_changed_def evs_def)
  have "list_all (tame w w') evs"
    using c tame_call_listeners [of w w' this "value_changed_listeners c"]
    by (auto simp: evs_def)
  then show ?thesis
    unfolding w' by (rule record_events_advances)
qed

lemma read_advances:
  assumes "read this w = Inr (current, w')"
  shows "advances w w'"
proof -
  have "\<exists>evs. characteristics w' = characteristics w \<and> hap_initialized w' = hap_initialized w \<and>
          trace w' = trace w @ evs \<and>
          set evs \<subseteq> {Supplier_call this} \<union> range Allocate \<union> range Release"
    using assms
    by (auto simp: read_def allocate_def release_def record_events_def
        split: option.splits behaviour.splits if_splits)
  then obtain evs where "characteristics w' = characteristics w"
      "hap_initialized w' = hap_initialized w" "trace w' = trace w @ evs"
      and evs: "set evs \<subseteq> {Supplier_call this} \<union> range Allocate \<union> range Release"
    by blast
  moreover have "list_all (tame w w') evs"
    using evs by (auto simp: list_all_iff)
  ultimately show ?thesis
    by (intro advances_events)
qed

lemma record_consumer_advances:
  "advances w (record_events [Consumer_call this v] (w\<lparr>user := u\<rparr>))"
  by (rule advances_events [where evs = "[Consumer_call this v]"])
    (auto simp: record_events_def)

lemma write_advances:
  assumes "write' this val len w = Inr w'"
  shows "advances w w'"
proof -
  obtain v u where
    "value_changed this val (record_events [Consumer_call this v] (w\<lparr>user := u\<rparr>)) = Inr w'"
    using assms
    by (auto simp: write'_def split: option.splits behaviour.splits heap_obj.splits)
  then have "advances (record_events [Consumer_call this v] (w\<lparr>user := u\<rparr>)) w'"
    by (rule value_changed_advances)
  with record_consumer_advances show ?thesis
    by (rule advances_trans)
qed

lemma notify_advances:
  assumes "notify this w = Inr w'"
  shows "advances w w'"
proof -
  obtain c where c: "characteristics w this = Some c"
    using assms by (auto simp: notify_def split: option.splits)
  show ?thesis
  proof (cases "canRead c")
    case False
    then have "w' = w"
      using assms c by (simp add: notify_def)
    then show ?thesis by (simp add: advances_refl)
  next
    case True
    then obtain current w1 where "read this w = Inr (current, w1)"
        and "value_changed this current w1 = Inr w'"
      using assms c by (auto simp: notify_def split: sum.splits)
    then show ?thesis
      using advances_trans [OF read_advances value_changed_advances] by blast
  qed
qed

lemma advances_assigned: "advances w w' \<Longrightarrow> assigned w p \<Longrightarrow> assigned w' p"
  by (auto simp: advances_def intro: assigned_grow)

lemma get_characteristic_struct_advances:
  assumes "get_characteristic_struct this w = Inr (cs, w')" and "assigned w this"
  shows "advances w w' \<and> cs_arg cs = this"
proof -
  obtain c where c: "characteristics w this = Some c" and h: "accessory_handle c \<noteq> None"
    using assms(2) by (auto simp: assigned_def split: option.splits)
  define w0 where "w0 = record_events [Get_characteristic_struct this (accessory_handle c)] w"
  have a0: "advances w w0"
    unfolding w0_def using h by (intro record_events_advances) simp
  obtain a w1 current where
    alloc: "(if fst (valid_values_override c)
             then allocate (Int_array (snd (valid_values_override c))) w0
             else Inr (nullptr, w0)) = Inr (a, w1)"
    and rd: "read this w1 = Inr (current, w')" and arg: "cs_arg cs = this"
    using assms(1) c
    by (auto simp: get_characteristic_struct_def w0_def split: sum.splits if_splits)
  have "advances w0 w1"
    using alloc allocate_advances advances_refl by (auto split: if_splits)
  then have "advances w w'"
    using a0 read_advances [OF rd] advances_trans by blast
  with arg show ?thesis by simp
qed

lemma delete_struct_advances:
  "delete_characteristic_struct_internals cs w = Inr w' \<Longrightarrow> advances w w'"
  using release_advances advances_refl
  by (auto simp: delete_characteristic_struct_internals_def split: if_splits)

lemma release_structs_advances: "release_structs hap_cs w = Inr w' \<Longrightarrow> advances w w'"
proof (induction hap_cs arbitrary: w)
  case Nil
  then show ?case by (simp add: advances_refl)
next
  case (Cons cs rest)
  then obtain w1 where "delete_characteristic_struct_internals cs w = Inr w1"
      and "release_structs rest w1 = Inr w'"
    by (auto split: sum.splits)
  then show ?case
    using Cons.IH delete_struct_advances advances_trans by blast
qed

lemma assign_handle_advances:
  assumes "characteristics w p = Some c"
  shows "advances w (w\<lparr>characteristics := (characteristics w)(p \<mapsto> c\<lparr>accessory_handle := Some h\<rparr>)\<rparr>)"
proof -
  have "handle_grows c (c\<lparr>accessory_handle := Some h\<rparr>)"
    by (auto simp: handle_grows_def)
  then have "handles_grow w (w\<lparr>characteristics := (characteristics w)(p \<mapsto> c\<lparr>accessory_handle := Some h\<rparr>)\<rparr>)"
    using assms by (auto simp: handles_grow_def option.rel_refl handle_grows_refl)
  then show ?thesis
    by (simp add: advances_def)
qed

lemma build_structs_advances:
  assumes "build_structs h ps hap_cs w = Inr (hap_cs', w')"
    and "list_all (\<lambda>cs. assigned w (cs_arg cs)) hap_cs"
  shows "advances w w' \<and> list_all (\<lambda>cs. assigned w' (cs_arg cs)) hap_cs'"
  using assms
proof (induction ps arbitrary: hap_cs w)
  case Nil
  then show ?case by (simp add: advances_refl)
next
  case (Cons p ps)
  then obtain c where c: "characteristics w p = Some c"
    by (auto split: option.splits)
  define w0 where
    "w0 = w\<lparr>characteristics := (characteristics w)(p \<mapsto> c\<lparr>accessory_handle := Some h\<rparr>)\<rparr>"
  obtain cs w1 where g: "get_characteristic_struct p w0 = Inr (cs, w1)"
    and rest: "build_structs h ps (hap_cs @ [cs]) w1 = Inr (hap_cs', w')"
    using Cons.prems(1) c by (auto simp: w0_def split: sum.splits)
  have a0: "advances w w0"
    unfolding w0_def using c by (rule assign_handle_advances)
  have "assigned w0 p"
    by (simp add: assigned_def w0_def)
  then have a1: "advances w0 w1" and arg: "cs_arg cs = p"
    using get_characteristic_struct_advances [OF g] by simp_all
  have a01: "advances w w1"
    using a0 a1 by (rule advances_trans)
  have "assigned w1 p"
    using \<open>assigned w0 p\<close> a1 by (rule advances_assigned [rotated])
  moreover have "list_all (\<lambda>cs. assigned w1 (cs_arg cs)) hap_cs"
    using Cons.prems(2) advances_assigned [OF a01] by (auto simp: list_all_iff)
  ultimately have "list_all (\<lambda>cs. assigned w1 (cs_arg cs)) (hap_cs @ [cs])"
    using arg by simp
  then have "advances w1 w' \<and> list_all (\<lambda>cs. assigned w' (cs_arg cs)) hap_cs'"
    using Cons.IH [OF rest] by simp
  then show ?case
    using a01 advances_trans by blast
qed

lemma add_service_Inr:
  assumes "add_service this service_type chars w = Inr w'"
  shows "\<exists>a hap_cs_addr w1 hap_cs w2 w3.
           accessories w this = Some a \<and>
           allocate (Struct_array (length chars)) w = Inr (hap_cs_addr, w1) \<and>
           build_structs (acc_handle a) chars [] w1 = Inr (hap_cs, w2) \<and>
           release_structs hap_cs
             (record_events [Hap_service_and_characteristics_ex_add (acc_handle a)
                (accessory_object a) service_type hap_cs] w2) = Inr w3 \<and>
           release hap_cs_addr w3 = Inr w'"
  using assms by (auto simp: add_service_def split: option.splits sum.splits)

lemma add_service_advances:
  assumes "add_service this service_type chars w = Inr w'"
  shows "advances w w'"
proof -
  obtain a hap_cs_addr w1 hap_cs w2 w3 where
    acc: "accessories w this = Some a"
    and al: "allocate (Struct_array (length chars)) w = Inr (hap_cs_addr, w1)"
    and b: "build_structs (acc_handle a) chars [] w1 = Inr (hap_cs, w2)"
    and r: "release_structs hap_cs
              (record_events [Hap_service_and_characteristics_ex_add (acc_handle a)
                 (accessory_object a) service_type hap_cs] w2) = Inr w3"
    and d: "release hap_cs_addr w3 = Inr w'"
    using add_service_Inr [OF assms] by blast
  have b': "advances w1 w2" and ok: "list_all (\<lambda>cs. assigned w2 (cs_arg cs)) hap_cs"
    using build_structs_advances [OF b] by simp_all
  define ev where "ev = Hap_service_and_characteristics_ex_add (acc_handle a)
                 (accessory_object a) service_type hap_cs"
  have "exposure_ok (record_events [ev] w2) ev"
    using ok by (simp add: ev_def record_events_def assigned_def list_all_iff)
  then have "advances w2 (record_events [ev] w2)"
    by (intro record_events_advances) (simp add: ev_def)
  then show ?thesis
    using allocate_advances [OF al] b' release_structs_advances [OF r [folded ev_def]]
      release_advances [OF d] advances_trans by blast
qed

lemma run_init_advances: "run_init this services w = Inr w' \<Longrightarrow> advances w w'"
proof (induction services arbitrary: w)
  case Nil
  then show ?case by (simp add: advances_refl)
next
  case (Cons service rest)
  obtain service_type chars where s: "service = (service_type, chars)"
    by (cases service)
  with Cons.prems obtain w1 where "add_service this service_type chars w = Inr w1"
      and "run_init this rest w1 = Inr w'"
    by (auto split: sum.splits)
  then show ?case
    using Cons.IH add_service_advances advances_trans by blast
qed

lemma init_callback_advances:
  assumes "init_callback this host_object w = Inr w'"
  shows "advances w w'"
proof -
  obtain a where a: "accessories w this = Some a"
    using assms by (auto simp: init_callback_def split: option.splits)
  define w0 where "w0 = record_events
               [Hap_accessory_add (acc_handle a),
                Hap_service_and_characteristics_add (acc_handle a) host_object
                  HAP_SERVICE_ACCESSORY_INFORMATION (builtin_characteristics a)]
               (w\<lparr>accessories := (accessories w)
                    (this \<mapsto> a\<lparr>accessory_object := host_object\<rparr>)\<rparr>)"
  have "advances w w0"
    by (rule advances_events [where evs = "[Hap_accessory_add (acc_handle a),
                Hap_service_and_characteristics_add (acc_handle a) host_object
                  HAP_SERVICE_ACCESSORY_INFORMATION (builtin_characteristics a)]"])
      (simp_all add: w0_def record_events_def)
  moreover have "run_init this (init a) w0 = Inr w'"
    using assms a by (simp add: init_callback_def w0_def)
  ultimately show ?thesis
    using run_init_advances advances_trans by blast
qed

section \<open>Steps of the process\<close>

lemma step_advances:
  assumes "step op w = Inr w'"
  shows "advances w w' \<or> is_register_accessory op \<or>
         (\<exists>this callback. op = Register_for_notifications this callback) \<or>
         (\<exists>arg handle enable. op = Host_set_event_handle arg handle enable)"
proof (cases op)
  case (Notify this)
  then show ?thesis using assms notify_advances by simp
next
  case (Host_accessory_init arg host_object)
  then show ?thesis
    using assms init_callback_advances
    by (auto simp: accessory_init_def split: if_splits)
next
  case (Host_read arg)
  then show ?thesis
    using assms read_advances
    by (auto simp: read_characteristic_def split: if_splits sum.splits)
next
  case (Host_write arg val len)
  then show ?thesis
    using assms write_advances
    by (auto simp: write_characteristic_def split: if_splits)
qed simp_all

lemma register_accessory_Inr:
  assumes "register_accessory this host_handle w = Inr w'"
  shows "\<exists>a. accessories w this = Some a \<and> characteristics w' = characteristics w \<and>
           hap_initialized w' \<and>
           trace w' = trace w @ (if hap_initialized w then [] else [Hap_init]) @
             [Hap_accessory_register (name a) (accessory_id a) (setup_code a)
                (manufacturer_name a) (category a) (port a) (configuration_version a) this]"
  using assms
  by (auto simp: register_accessory_def record_events_def Let_def split: option.splits)

lemma register_for_notifications_Inr:
  assumes "register_for_notifications this callback w = Inr w'"
  shows "\<exists>c. characteristics w this = Some c \<and>
           characteristics w' = (characteristics w)
             (this \<mapsto> c\<lparr>value_changed_listeners := value_changed_listeners c @ [callback]\<rparr>) \<and>
           hap_initialized w' = hap_initialized w \<and> trace w' = trace w"
  using assms by (auto simp: register_for_notifications_def split: option.splits)

lemma set_event_handle_Inr:
  assumes "set_event_handle this handle enable w = Inr w'"
  shows "\<exists>c. characteristics w this = Some c \<and>
           characteristics w' = (characteristics w)
             (this \<mapsto> c\<lparr>event_handle := (if enable then handle else nullptr)\<rparr>) \<and>
           hap_initialized w' = hap_initialized w \<and> trace w' = trace w"
  using assms by (auto simp: set_event_handle_def split: option.splits)

lemmas model_defs =
  process_start_def constructed_def constructed_accessory_def lamp_world_def lamp_def switch_def
  register_accessory_def init_callback_def accessory_init_def add_service_def
  get_characteristic_struct_def delete_characteristic_struct_internals_def
  read_def write'_def notify_def value_changed_def register_for_notifications_def
  set_event_handle_def set_characteristic_event_handle_def read_characteristic_def
  write_characteristic_def allocate_def release_def record_events_def canRead_def canWrite_def
  builtin_characteristics_def Let_def

section \<open>One global initialisation\<close>

lemma count_inits_tame: "list_all (tame w w') evs \<Longrightarrow> count_list evs Hap_init = 0"
  by (induction evs) auto

lemma init_before_register_tame:
  "list_all (tame w w') evs \<Longrightarrow>
   init_before_register seen (pre @ evs) = init_before_register seen pre"
proof (induction seen pre rule: init_before_register.induct)
  case (1 seen)
  then show ?case
  proof (induction evs)
    case (Cons ev evs)
    then show ?case by (cases ev) auto
  qed simp
qed auto

lemma init_before_register_snoc:
  "init_before_register seen (pre @ [Hap_init]) = init_before_register seen pre"
  "init_before_register seen (pre @ [Hap_accessory_register n i s m c p v x]) =
     (init_before_register seen pre \<and> (seen \<or> Hap_init \<in> set pre))"
  by (induction seen pre rule: init_before_register.induct) auto

lemma advances_initialised_once:
  assumes "advances w w'" and "initialised_once w"
  shows "initialised_once w'" and "hap_initialized w' = hap_initialized w"
  using assms
  by (auto simp: advances_def initialised_once_def count_inits_tame init_before_register_tame)

lemma step_initialised_once:
  assumes "step op w = Inr w'" and "initialised_once w"
  shows "initialised_once w' \<and>
         hap_initialized w' = (hap_initialized w \<or> is_register_accessory op)"
proof -
  consider (advancing) "advances w w'" "\<not> is_register_accessory op"
    | (register) this host_handle where "op = Register_accessory this host_handle"
    | (listener) this callback where "op = Register_for_notifications this callback"
    | (event) arg handle enable where "op = Host_set_event_handle arg handle enable"
    using step_advances [OF assms(1)] by (cases op) auto
  then show ?thesis
  proof cases
    case advancing
    then show ?thesis
      using advances_initialised_once [OF _ assms(2)] by simp
  next
    case register
    then obtain a :: accessory where "hap_initialized w'" and
      t: "trace w' = trace w @ (if hap_initialized w then [] else [Hap_init]) @
             [Hap_accessory_register (name a) (accessory_id a) (setup_code a)
                (manufacturer_name a) (category a) (port a) (configuration_version a) this]"
      using assms(1) register_accessory_Inr [of this host_handle w w'] by auto
    moreover have "hap_initialized w \<Longrightarrow> Hap_init \<in> set (trace w)"
    proof -
      assume "hap_initialized w"
      then have "count_list (trace w) Hap_init \<noteq> 0"
        using assms(2) by (simp add: initialised_once_def)
      then show ?thesis
        by (simp add: count_list_0_iff)
    qed
    ultimately show ?thesis
      using assms(2) register
      by (auto simp: initialised_once_def init_before_register_snoc
          simp flip: append_assoc split: if_splits)
  next
    case listener
    then show ?thesis
      using assms register_for_notifications_Inr [of this callback w w']
      by (auto simp: initialised_once_def)
  next
    case event
    then show ?thesis
      using assms set_event_handle_Inr [of arg handle enable w w']
      by (auto simp: initialised_once_def set_characteristic_event_handle_def split: if_splits)
  qed
qed

lemma run_initialised_once:
  assumes "run ops w = Inr w'" and "initialised_once w"
  shows "initialised_once w' \<and>
         hap_initialized w' = (hap_initialized w \<or> list_ex is_register_accessory ops)"
  using assms
proof (induction ops arbitrary: w)
  case Nil
  then show ?case by simp
next
  case (Cons op ops)
  then obtain w1 where s: "step op w = Inr w1" and r: "run ops w1 = Inr w'"
    by (auto split: sum.splits)
  show ?case
    using step_initialised_once [OF s Cons.prems(2)] Cons.IH [OF r] by auto
qed

text \<open>
  C6. In every run of the process from its start, whatever the operations and on however
  many accessories, the host's global initialisation happens exactly once if an
  accessory is registered at all (and not otherwise), it comes before every registration
  of an accessory with the host, and the flag is set exactly when a registration has
  taken place. \<^verbatim>\<open>register_accessory\<close> sets the flag before it calls the host.
\<close>

theorem host_initialised_once:
  assumes "run ops (process_start w) = Inr w'"
  shows "count_list (trace w') Hap_init = (if list_ex is_register_accessory ops then 1 else 0) \<and>
         init_before_register False (trace w') \<and>
         hap_initialized w' = list_ex is_register_accessory ops"
proof -
  have "initialised_once (process_start w)"
    by (simp add: initialised_once_def process_start_def)
  moreover have "\<not> hap_initialized (process_start w)"
    by (simp add: process_start_def)
  ultimately show ?thesis
    using run_initialised_once [OF assms] by (auto simp: initialised_once_def)
qed

text \<open>Two accessories registered one after the other: one initialisation.\<close>

theorem host_initialised_once_witness:
  "run [Register_accessory 200 7, Register_accessory 201 8] (process_start lamp_world) =
     Inr ((process_start lamp_world)
       \<lparr>hap_initialized := True,
        accessories := [200 \<mapsto> lamp\<lparr>acc_handle := 7\<rparr>,
                        201 \<mapsto> lamp\<lparr>name := ''Bridge'', init := [], acc_handle := 8\<rparr>],
        trace := [Hap_init,
          Hap_accessory_register ''Lamp'' ''AA:BB:CC:DD:EE:FF'' ''053-58-197'' ''ACME'' 5 811 1 200,
          Hap_accessory_register ''Bridge'' ''AA:BB:CC:DD:EE:FF'' ''053-58-197'' ''ACME'' 5 811 1
            201]\<rparr>) \<and>
   count_list
     [Hap_init,
      Hap_accessory_register ''Lamp'' ''AA:BB:CC:DD:EE:FF'' ''053-58-197'' ''ACME'' 5 811 1 200,
      Hap_accessory_register ''Bridge'' ''AA:BB:CC:DD:EE:FF'' ''053-58-197'' ''ACME'' 5 811 1 201]
     Hap_init = 1"
proof -
  define w' where "w' = (process_start lamp_world)
       \<lparr>hap_initialized := True,
        accessories := [200 \<mapsto> lamp\<lparr>acc_handle := 7\<rparr>,
                        201 \<mapsto> lamp\<lparr>name := ''Bridge'', init := [], acc_handle := 8\<rparr>],
        trace := [Hap_init,
          Hap_accessory_register ''Lamp'' ''AA:BB:CC:DD:EE:FF'' ''053-58-197'' ''ACME'' 5 811 1 200,
          Hap_accessory_register ''Bridge'' ''AA:BB:CC:DD:EE:FF'' ''053-58-197'' ''ACME'' 5 811 1
            201]\<rparr>"
  have h: "run [Register_accessory 200 7, Register_accessory 201 8] (process_start lamp_world) =
      Inr w'"
    by (simp add: w'_def model_defs fun_eq_iff)
  have "count_list (trace w') Hap_init = 1"
    using host_initialised_once [OF h] by simp
  then show ?thesis
    using h by (simp add: w'_def)
qed

section \<open>Accessory handles are assigned before they are used\<close>

lemma advances_consistent:
  assumes "advances w w'" and "handles_consistent w"
  shows "handles_consistent w'"
proof -
  obtain evs where g: "handles_grow w w'" and t: "trace w' = trace w @ evs"
    and evs: "list_all (tame w w') evs"
    using assms(1) by (auto simp: advances_def)
  have i1: "accessory_handle c \<noteq> None"
    if "characteristics w p = Some c" "event_handle c \<noteq> nullptr" for p c
    using assms(2) that by (auto simp: handles_consistent_def)
  have "accessory_handle c' \<noteq> None"
    if h1: "characteristics w' p = Some c'" and h2: "event_handle c' \<noteq> nullptr" for p c'
  proof -
    obtain c where "characteristics w p = Some c" "handle_grows c c'"
      using handles_grow_Some_back [OF g h1] by blast
    then show ?thesis
      using h2 i1 [of p c] handle_grows_fields [of c c'] by auto
  qed
  moreover have "list_all (exposure_ok w') (trace w)"
    using assms(2) exposure_ok_grow [OF g] by (auto simp: handles_consistent_def list_all_iff)
  moreover have "exposure_ok w' ev \<and> handle_known ev" if "ev \<in> set evs" for ev
  proof -
    have "tame w w' ev"
      using evs that by (auto simp: list_all_iff)
    then show ?thesis
      using i1 by (cases ev) auto
  qed
  ultimately show ?thesis
    using assms(2) t by (auto simp: handles_consistent_def list_all_iff)
qed

lemma offered_assigned:
  assumes "list_ex (offered field f arg) evs" and "list_all (exposure_ok w) evs"
  shows "assigned w arg"
proof -
  obtain ev where ev: "ev \<in> set evs" "offered field f arg ev"
    using assms(1) by (auto simp: list_ex_iff)
  then have "exposure_ok w ev"
    using assms(2) by (auto simp: list_all_iff)
  with ev(2) show ?thesis
    by (cases ev) (auto simp: list_ex_iff list_all_iff)
qed

lemma step_consistent:
  assumes "step op w = Inr w'" and "handles_consistent w"
  shows "handles_consistent w'"
proof -
  consider (advancing) "advances w w'"
    | (register) this host_handle where "op = Register_accessory this host_handle"
    | (listener) this callback where "op = Register_for_notifications this callback"
    | (event) arg handle enable where "op = Host_set_event_handle arg handle enable"
    using step_advances [OF assms(1)] by (cases op) auto
  then show ?thesis
  proof cases
    case advancing
    then show ?thesis using assms(2) by (rule advances_consistent)
  next
    case register
    then obtain a :: accessory where "characteristics w' = characteristics w" and
      "trace w' = trace w @ (if hap_initialized w then [] else [Hap_init]) @
             [Hap_accessory_register (name a) (accessory_id a) (setup_code a)
                (manufacturer_name a) (category a) (port a) (configuration_version a) this]"
      using assms(1) register_accessory_Inr [of this host_handle w w'] by auto
    moreover from this have "exposure_ok w' ev = exposure_ok w ev" for ev
      by (cases ev) (simp_all add: assigned_def)
    then have "exposure_ok w' = exposure_ok w"
      by (rule ext)
    ultimately show ?thesis
      using assms(2) by (auto simp: handles_consistent_def)
  next
    case listener
    then obtain c where c: "characteristics w this = Some c"
      and c': "characteristics w' = (characteristics w)
             (this \<mapsto> c\<lparr>value_changed_listeners := value_changed_listeners c @ [callback]\<rparr>)"
      and t: "trace w' = trace w"
      using assms(1) register_for_notifications_Inr [of this callback w w'] by auto
    have "assigned w' p = assigned w p" for p
      using c c' by (simp add: assigned_def)
    then have "exposure_ok w' ev = exposure_ok w ev" for ev
      by (cases ev) simp_all
    then have "exposure_ok w' = exposure_ok w"
      by (rule ext)
    then show ?thesis
      using assms(2) c c' t by (auto simp: handles_consistent_def)
  next
    case event
    then have guard: "list_ex (offered cs_event Set_characteristic_event_handle arg) (trace w)"
      and s: "set_event_handle arg handle enable w = Inr w'"
      using assms(1) by (auto simp: set_characteristic_event_handle_def split: if_splits)
    obtain c where c: "characteristics w arg = Some c"
      and c': "characteristics w' = (characteristics w)
             (arg \<mapsto> c\<lparr>event_handle := (if enable then handle else nullptr)\<rparr>)"
      and t: "trace w' = trace w"
      using set_event_handle_Inr [OF s] by auto
    have "assigned w arg"
      using guard assms(2) offered_assigned by (auto simp: handles_consistent_def)
    then have "accessory_handle c \<noteq> None"
      using c by (simp add: assigned_def)
    moreover have "assigned w' p = assigned w p" for p
      using c c' by (simp add: assigned_def)
    then have "exposure_ok w' ev = exposure_ok w ev" for ev
      by (cases ev) simp_all
    then have "exposure_ok w' = exposure_ok w"
      by (rule ext)
    ultimately show ?thesis
      using assms(2) c c' t by (auto simp: handles_consistent_def)
  qed
qed

lemma run_consistent:
  assumes "run ops w = Inr w'" and "handles_consistent w"
  shows "handles_consistent w'"
  using assms
proof (induction ops arbitrary: w)
  case Nil
  then show ?case by simp
next
  case (Cons op ops)
  then obtain w1 where "step op w = Inr w1" and "run ops w1 = Inr w'"
    by (auto split: sum.splits)
  then show ?case
    using Cons.IH Cons.prems(2) step_consistent by blast
qed

text \<open>
  C8, as amended. In every run of the process from its start, each conversion of a
  characteristic into a transfer structure finds the accessory handle of the
  characteristic assigned, and each event response that \<^verbatim>\<open>value_changed\<close> sends to the
  host carries an assigned accessory handle.
\<close>

theorem accessory_handle_assigned_before_use:
  assumes "run ops (process_start w) = Inr w'"
  shows "list_all handle_known (trace w')"
proof -
  have "handles_consistent (process_start w)"
    by (auto simp: handles_consistent_def process_start_def constructed_def)
  then have "handles_consistent w'"
    using assms run_consistent by blast
  then show ?thesis
    by (simp add: handles_consistent_def)
qed

text \<open>
  The bring-up of the lamp, followed by the host enabling events for the switch and
  writing to it.
\<close>

theorem accessory_handle_assigned_before_use_witness:
  "trace (world_of (run [Register_accessory 200 7, Host_accessory_init 200 9,
                         Host_set_event_handle 100 55 True, Host_write 100 0 4]
                      (process_start lamp_world))) =
     [Hap_init,
      Hap_accessory_register ''Lamp'' ''AA:BB:CC:DD:EE:FF'' ''053-58-197'' ''ACME'' 5 811 1 200,
      Hap_accessory_add 7,
      Hap_service_and_characteristics_add 7 9 HAP_SERVICE_ACCESSORY_INFORMATION
        (builtin_characteristics lamp),
      Allocate 1000, Get_characteristic_struct 100 (Some 7), Allocate 1001, Supplier_call 100,
      Hap_service_and_characteristics_ex_add 7 9 (HAP_SERVICE_OTHER 1)
        [\<lparr>cs_type = HAP_CHARACTER_OTHER 0, cs_value = 1, cs_arg = 100,
          cs_read = Some Read_characteristic, cs_write = Some Write_characteristic,
          cs_event = Some Set_characteristic_event_handle,
          override_max_value = False, max_value = 0,
          override_min_value = False, min_value = 0,
          cs_reserved_flag = False, cs_reserved_pointer = 0,
          override_valid_values = True, valid_values_length = 2, valid_values = 1001\<rparr>],
      Release 1001, Release 1000,
      Consumer_call 100 (Int_value 0), Value_changed 100 0,
      Hap_event_response (Some 7) 55 0] \<and>
   (\<exists>w'. run [Register_accessory 200 7, Host_accessory_init 200 9,
              Host_set_event_handle 100 55 True, Host_write 100 0 4]
           (process_start lamp_world) = Inr w' \<and> list_all handle_known (trace w'))"
proof -
  define ops where "ops = [Register_accessory 200 7, Host_accessory_init 200 9,
                         Host_set_event_handle 100 55 True, Host_write 100 0 4]"
  have t: "trace (world_of (run ops (process_start lamp_world))) =
     [Hap_init,
      Hap_accessory_register ''Lamp'' ''AA:BB:CC:DD:EE:FF'' ''053-58-197'' ''ACME'' 5 811 1 200,
      Hap_accessory_add 7,
      Hap_service_and_characteristics_add 7 9 HAP_SERVICE_ACCESSORY_INFORMATION
        (builtin_characteristics lamp),
      Allocate 1000, Get_characteristic_struct 100 (Some 7), Allocate 1001, Supplier_call 100,
      Hap_service_and_characteristics_ex_add 7 9 (HAP_SERVICE_OTHER 1)
        [\<lparr>cs_type = HAP_CHARACTER_OTHER 0, cs_value = 1, cs_arg = 100,
          cs_read = Some Read_characteristic, cs_write = Some Write_characteristic,
          cs_event = Some Set_characteristic_event_handle,
          override_max_value = False, max_value = 0,
          override_min_value = False, min_value = 0,
          cs_reserved_flag = False, cs_reserved_pointer = 0,
          override_valid_values = True, valid_values_length = 2, valid_values = 1001\<rparr>],
      Release 1001, Release 1000,
      Consumer_call 100 (Int_value 0), Value_changed 100 0,
      Hap_event_response (Some 7) 55 0]"
    and r: "\<exists>w'. run ops (process_start lamp_world) = Inr w'"
    by (simp_all add: ops_def model_defs)
  then obtain w' where h: "run ops (process_start lamp_world) = Inr w'"
    by blast
  then show ?thesis
    using t accessory_handle_assigned_before_use [OF h] by (auto simp: ops_def)
qed

text \<open>
  C8 as stated fails: \<^verbatim>\<open>notify\<close> is public, and called on a readable characteristic that
  has not been added to a service it enters \<^verbatim>\<open>value_changed\<close> while the accessory handle
  is still unassigned.
\<close>

theorem dispatch_before_assignment_counterexample:
  "run [Notify 100] (process_start lamp_world) =
     Inr ((process_start lamp_world)\<lparr>trace := [Supplier_call 100, Value_changed 100 1]\<rparr>) \<and>
   \<not> assigned ((process_start lamp_world)\<lparr>trace := [Supplier_call 100, Value_changed 100 1]\<rparr>)
        100"
  by (simp add: model_defs assigned_def)

section \<open>A disabled event handle stays null\<close>

lemma advances_keeps_event_handle:
  assumes "advances w w'" and "characteristics w this = Some c"
  shows "\<exists>c'. characteristics w' this = Some c' \<and> event_handle c' = event_handle c"
proof -
  have "handles_grow w w'"
    using assms(1) by (simp add: advances_def)
  then obtain c' where "characteristics w' this = Some c'" "handle_grows c c'"
    using handles_grow_Some assms(2) by blast
  then show ?thesis
    using handle_grows_fields(1) by blast
qed

lemma step_keeps_disabled:
  assumes "step op w = Inr w'" and "characteristics w this = Some c"
    and "event_handle c = nullptr" and "\<not> enables this op"
  shows "\<exists>c'. characteristics w' this = Some c' \<and> event_handle c' = nullptr"
proof -
  consider (advancing) "advances w w'"
    | (register) acc host_handle where "op = Register_accessory acc host_handle"
    | (listener) p callback where "op = Register_for_notifications p callback"
    | (event) arg handle enable where "op = Host_set_event_handle arg handle enable"
    using step_advances [OF assms(1)] by (cases op) auto
  then show ?thesis
  proof cases
    case advancing
    then show ?thesis
      using advances_keeps_event_handle assms(2,3) by fastforce
  next
    case register
    then show ?thesis
      using assms(1-3) register_accessory_Inr [of acc host_handle w w'] by auto
  next
    case listener
    then show ?thesis
      using assms(1-3) register_for_notifications_Inr [of p callback w w'] by auto
  next
    case event
    then have "set_event_handle arg handle enable w = Inr w'"
      using assms(1) by (auto simp: set_characteristic_event_handle_def split: if_splits)
    then show ?thesis
      using assms(2-4) event set_event_handle_Inr [of arg handle enable w w'] by auto
  qed
qed

lemma run_keeps_disabled:
  assumes "run ops w = Inr w'" and "characteristics w this = Some c"
    and "event_handle c = nullptr" and "\<not> list_ex (enables this) ops"
  shows "\<exists>c'. characteristics w' this = Some c' \<and> event_handle c' = nullptr"
  using assms
proof (induction ops arbitrary: w c)
  case Nil
  then show ?case by simp
next
  case (Cons op ops)
  then obtain w1 where s: "step op w = Inr w1" and r: "run ops w1 = Inr w'"
    by (auto split: sum.splits)
  obtain c1 where "characteristics w1 this = Some c1" "event_handle c1 = nullptr"
    using step_keeps_disabled [OF s Cons.prems(2,3)] Cons.prems(4) by auto
  then show ?case
    using Cons.IH [OF r] Cons.prems(4) by auto
qed

text \<open>
  C10. After the host has called the event-enable entry point with \<open>enable = false\<close>,
  and after any further operations of the process that do not enable events for this
  characteristic again, the event handle is null and a dispatch of \<^verbatim>\<open>value_changed\<close>
  consists of the calls of all listeners only: the host's event response is not called.
\<close>

theorem disabled_events_are_not_emitted:
  assumes "set_characteristic_event_handle this handle False w = Inr w1"
    and "run ops w1 = Inr w2"
    and "\<not> list_ex (enables this) ops"
  shows "\<exists>c. characteristics w2 this = Some c \<and> event_handle c = nullptr \<and>
           value_changed this new_value w2 =
             Inr (record_events
                    (Value_changed this new_value #
                     call_listeners this (value_changed_listeners c)) w2)"
proof -
  obtain c1 where "characteristics w1 this = Some c1" "event_handle c1 = nullptr"
    using assms(1) set_event_handle_Inr [of this handle False w w1]
    by (auto simp: set_characteristic_event_handle_def)
  then obtain c where "characteristics w2 this = Some c" "event_handle c = nullptr"
    using run_keeps_disabled [OF assms(2) _ _ assms(3)] by blast
  then show ?thesis
    by (simp add: value_changed_def)
qed

text \<open>
  Events are disabled for the switch of the lamp; a notification and a new listener
  later, a dispatch calls the three listeners and not the host.
\<close>

theorem disabled_events_are_not_emitted_witness:
  "set_characteristic_event_handle 100 55 False lamp_enabled =
     Inr (lamp_enabled\<lparr>characteristics := [100 \<mapsto> switch\<lparr>accessory_handle := Some 7\<rparr>]\<rparr>) \<and>
   run [Notify 100, Register_for_notifications 100 (Some 3)]
     (lamp_enabled\<lparr>characteristics := [100 \<mapsto> switch\<lparr>accessory_handle := Some 7\<rparr>]\<rparr>) =
     Inr (lamp_enabled\<lparr>characteristics :=
            [100 \<mapsto> switch\<lparr>accessory_handle := Some 7,
                            value_changed_listeners := [Some 1, None, Some 2, Some 3]\<rparr>],
          trace := [Supplier_call 100, Value_changed 100 1,
                    Listener_call 1 100, Listener_call 2 100]\<rparr>) \<and>
   \<not> list_ex (enables 100) [Notify 100, Register_for_notifications 100 (Some 3)] \<and>
   value_changed 100 0
     (lamp_enabled\<lparr>characteristics :=
            [100 \<mapsto> switch\<lparr>accessory_handle := Some 7,
                            value_changed_listeners := [Some 1, None, Some 2, Some 3]\<rparr>],
          trace := [Supplier_call 100, Value_changed 100 1,
                    Listener_call 1 100, Listener_call 2 100]\<rparr>) =
     Inr (lamp_enabled\<lparr>characteristics :=
            [100 \<mapsto> switch\<lparr>accessory_handle := Some 7,
                            value_changed_listeners := [Some 1, None, Some 2, Some 3]\<rparr>],
          trace := [Supplier_call 100, Value_changed 100 1,
                    Listener_call 1 100, Listener_call 2 100,
                    Value_changed 100 0, Listener_call 1 100, Listener_call 2 100,
                    Listener_call 3 100]\<rparr>)"
proof -
  define w1 where
    "w1 = lamp_enabled\<lparr>characteristics := [100 \<mapsto> switch\<lparr>accessory_handle := Some 7\<rparr>]\<rparr>"
  define w2 where
    "w2 = lamp_enabled\<lparr>characteristics :=
            [100 \<mapsto> switch\<lparr>accessory_handle := Some 7,
                            value_changed_listeners := [Some 1, None, Some 2, Some 3]\<rparr>],
          trace := [Supplier_call 100, Value_changed 100 1,
                    Listener_call 1 100, Listener_call 2 100]\<rparr>"
  have h1: "set_characteristic_event_handle 100 55 False lamp_enabled = Inr w1"
    by (simp add: set_characteristic_event_handle_def set_event_handle_def lamp_enabled_def
        lamp_world_def switch_def w1_def)
  have h2: "run [Notify 100, Register_for_notifications 100 (Some 3)] w1 = Inr w2"
    by (simp add: notify_def read_def value_changed_def register_for_notifications_def
        record_events_def canRead_def lamp_enabled_def lamp_world_def switch_def w1_def w2_def)
  have h3: "\<not> list_ex (enables 100) [Notify 100, Register_for_notifications 100 (Some 3)]"
    by simp
  obtain c where "characteristics w2 100 = Some c"
    and "value_changed 100 0 w2 =
           Inr (record_events (Value_changed 100 0 #
                  call_listeners 100 (value_changed_listeners c)) w2)"
    using disabled_events_are_not_emitted [OF h1 h2 h3, of 0] by blast
  then have "value_changed 100 0 w2 =
     Inr (w2\<lparr>trace := [Supplier_call 100, Value_changed 100 1,
                    Listener_call 1 100, Listener_call 2 100,
                    Value_changed 100 0, Listener_call 1 100, Listener_call 2 100,
                    Listener_call 3 100]\<rparr>)"
    by (auto simp: w2_def record_events_def switch_def)
  then show ?thesis
    using h1 h2 h3 by (simp add: w1_def w2_def)
qed

section \<open>The bring-up of an accessory\<close>

lemma reaches_refl: "reaches w w"
  by (simp add: reaches_def)

lemma reaches_trans: "reaches w w1 \<Longrightarrow> reaches w1 w2 \<Longrightarrow> reaches w w2"
  by (auto simp: reaches_def)

lemma world_of_Inl: "world_of (Inl failure) = snd failure"
  by (cases failure) simp

lemma world_of_value_Inl: "world_of_value (Inl failure) = snd failure"
  by (cases failure) simp

lemma world_of_value_Inr: "world_of_value (Inr result) = snd result"
  by (cases result) simp

lemma reaches_value_then_value:
  assumes "reaches w (world_of_value r)"
    and "\<And>x w1. r = Inr (x, w1) \<Longrightarrow> reaches w1 (world_of_value (f x w1))"
  shows "reaches w (world_of_value (case r of Inl e \<Rightarrow> Inl e | Inr (x, w1) \<Rightarrow> f x w1))"
proof (cases r)
  case (Inl failure)
  then show ?thesis using assms(1) by (simp add: world_of_value_Inl)
next
  case (Inr result)
  then show ?thesis
    using assms reaches_trans by (cases result) fastforce
qed

lemma reaches_value_then:
  assumes "reaches w (world_of_value r)"
    and "\<And>x w1. r = Inr (x, w1) \<Longrightarrow> reaches w1 (world_of (f x w1))"
  shows "reaches w (world_of (case r of Inl e \<Rightarrow> Inl e | Inr (x, w1) \<Rightarrow> f x w1))"
proof (cases r)
  case (Inl failure)
  then show ?thesis using assms(1) by (simp add: world_of_value_Inl world_of_Inl)
next
  case (Inr result)
  then show ?thesis
    using assms reaches_trans by (cases result) fastforce
qed

lemma reaches_then:
  assumes "reaches w (world_of r)"
    and "\<And>w1. r = Inr w1 \<Longrightarrow> reaches w1 (world_of (f w1))"
  shows "reaches w (world_of (case r of Inl e \<Rightarrow> Inl e | Inr w1 \<Rightarrow> f w1))"
proof (cases r)
  case (Inl failure)
  then show ?thesis using assms(1) by (simp add: world_of_Inl)
next
  case (Inr w1)
  then show ?thesis
    using assms reaches_trans by fastforce
qed

lemma reaches_record_events: "reaches w (record_events evs w)"
  by (simp add: reaches_def record_events_def)

lemma allocate_reaches: "reaches w (world_of_value (allocate obj w))"
  by (simp add: allocate_def reaches_def)

lemma release_reaches: "reaches w (world_of (release a w))"
  by (simp add: release_def reaches_def)

lemma read_reaches: "reaches w (world_of_value (read this w))"
  by (auto simp: read_def allocate_def release_def record_events_def reaches_def
      split: option.splits behaviour.splits)

lemma get_characteristic_struct_reaches:
  "reaches w (world_of_value (get_characteristic_struct this w))"
proof (cases "characteristics w this")
  case None
  then show ?thesis by (simp add: get_characteristic_struct_def reaches_refl)
next
  case (Some c)
  define w0 where "w0 = record_events [Get_characteristic_struct this (accessory_handle c)] w"
  define r where "r = (if fst (valid_values_override c)
             then allocate (Int_array (snd (valid_values_override c))) w0
             else Inr (nullptr, w0))"
  define g where "g = (\<lambda>valid_values_dyn current.
      \<lparr>cs_type = type c, cs_value = current, cs_arg = this,
       cs_read = (if canRead c then Some Read_characteristic else None),
       cs_write = (if canWrite c then Some Write_characteristic else None),
       cs_event = Some Set_characteristic_event_handle,
       override_max_value = fst (max_value_override c),
       max_value = snd (max_value_override c),
       override_min_value = fst (min_value_override c),
       min_value = snd (min_value_override c),
       cs_reserved_flag = False, cs_reserved_pointer = nullptr,
       override_valid_values = fst (valid_values_override c),
       valid_values_length =
         (if fst (valid_values_override c) then length (snd (valid_values_override c)) else 0),
       valid_values = valid_values_dyn\<rparr>)"
  have unfolded: "get_characteristic_struct this w =
      (case r of
         Inl e \<Rightarrow> Inl e
       | Inr (valid_values_dyn, w1) \<Rightarrow>
           (case read this w1 of
              Inl e \<Rightarrow> Inl e
            | Inr (current, w2) \<Rightarrow> Inr (g valid_values_dyn current, w2)))"
    unfolding get_characteristic_struct_def r_def g_def w0_def using Some by simp
  have "reaches w0 (world_of_value r)"
    by (simp add: r_def allocate_reaches reaches_refl)
  then have "reaches w0 (world_of_value (get_characteristic_struct this w))"
    unfolding unfolded
    by (intro reaches_value_then_value) (auto simp: read_reaches reaches_refl)
  then show ?thesis
    using reaches_trans [OF reaches_record_events [of w]] by (simp add: w0_def)
qed

lemma build_structs_reaches:
  "reaches w (world_of_value (build_structs h ps hap_cs w))"
proof (induction ps arbitrary: hap_cs w)
  case Nil
  then show ?case by (simp add: reaches_refl)
next
  case (Cons p ps)
  show ?case
  proof (cases "characteristics w p")
    case None
    then show ?thesis by (simp add: reaches_refl)
  next
    case (Some c)
    define w0 where
      "w0 = w\<lparr>characteristics := (characteristics w)(p \<mapsto> c\<lparr>accessory_handle := Some h\<rparr>)\<rparr>"
    have "reaches w0 (world_of_value
        (case get_characteristic_struct p w0 of
           Inl e \<Rightarrow> Inl e
         | Inr (cs, w1) \<Rightarrow> build_structs h ps (hap_cs @ [cs]) w1))"
      by (intro reaches_value_then_value get_characteristic_struct_reaches Cons.IH)
    moreover have "reaches w w0"
      by (simp add: reaches_def w0_def)
    ultimately show ?thesis
      using Some reaches_trans by (simp add: w0_def)
  qed
qed

lemma delete_struct_reaches:
  "reaches w (world_of (delete_characteristic_struct_internals cs w))"
  by (simp add: delete_characteristic_struct_internals_def release_reaches reaches_refl)

lemma release_structs_reaches: "reaches w (world_of (release_structs hap_cs w))"
proof (induction hap_cs arbitrary: w)
  case Nil
  then show ?case by (simp add: reaches_refl)
next
  case (Cons cs rest)
  show ?case
    unfolding release_structs.simps
    by (intro reaches_then delete_struct_reaches Cons.IH)
qed

lemma add_service_reaches:
  "reaches w (world_of (add_service this service_type chars w))"
proof (cases "accessories w this")
  case None
  then show ?thesis by (simp add: add_service_def reaches_refl)
next
  case (Some a)
  have "reaches w2 (world_of
      (case release_structs hap_cs
              (record_events
                 [Hap_service_and_characteristics_ex_add (acc_handle a) (accessory_object a)
                    service_type hap_cs] w2) of
         Inl e \<Rightarrow> Inl e
       | Inr w3 \<Rightarrow> release hap_cs_addr w3))" for w2 hap_cs hap_cs_addr
    using reaches_trans [OF reaches_record_events release_structs_reaches]
    by (intro reaches_then release_reaches) auto
  then show ?thesis
    using Some unfolding add_service_def
    by (auto intro!: reaches_value_then allocate_reaches build_structs_reaches)
qed

lemma run_init_reaches: "reaches w (world_of (run_init this services w))"
proof (induction services arbitrary: w)
  case Nil
  then show ?case by (simp add: reaches_refl)
next
  case (Cons service rest)
  obtain service_type chars where s: "service = (service_type, chars)"
    by (cases service)
  show ?case
    unfolding s run_init.simps
    by (intro reaches_then add_service_reaches Cons.IH)
qed

text \<open>
  C7. Whether the callback returns or the user's hook fails, its first two events are
  the call that obtains the accessory object and the installation of the six built-in
  characteristics (identify, manufacturer, model, name, serial number, firmware revision,
  in this order) into the accessory information service; every event of the user's hook
  comes after them. With a hook that adds no service the callback returns and these two
  are its only events: one service of six characteristics.
\<close>

theorem builtin_characteristics_first:
  assumes "accessories w this = Some a"
  shows "\<exists>evs. trace (world_of (init_callback this host_object w)) =
           trace w @
           Hap_accessory_add (acc_handle a) #
           Hap_service_and_characteristics_add (acc_handle a) host_object
             HAP_SERVICE_ACCESSORY_INFORMATION (builtin_characteristics a) # evs \<and>
           (init a = [] \<longrightarrow> evs = [] \<and> (\<exists>w'. init_callback this host_object w = Inr w')) \<and>
           map hc_type (builtin_characteristics a) =
             [HAP_CHARACTER_IDENTIFY, HAP_CHARACTER_MANUFACTURER, HAP_CHARACTER_MODEL,
              HAP_CHARACTER_NAME, HAP_CHARACTER_SERIAL_NUMBER,
              HAP_CHARACTER_FIRMWARE_REVISION]"
proof -
  define w0 where "w0 = record_events
               [Hap_accessory_add (acc_handle a),
                Hap_service_and_characteristics_add (acc_handle a) host_object
                  HAP_SERVICE_ACCESSORY_INFORMATION (builtin_characteristics a)]
               (w\<lparr>accessories := (accessories w)
                    (this \<mapsto> a\<lparr>accessory_object := host_object\<rparr>)\<rparr>)"
  have c: "init_callback this host_object w = run_init this (init a) w0"
    using assms by (simp add: init_callback_def w0_def)
  have t0: "trace w0 = trace w @
           [Hap_accessory_add (acc_handle a),
            Hap_service_and_characteristics_add (acc_handle a) host_object
             HAP_SERVICE_ACCESSORY_INFORMATION (builtin_characteristics a)]"
    by (simp add: w0_def record_events_def)
  obtain evs where evs: "trace (world_of (run_init this (init a) w0)) = trace w0 @ evs"
    using run_init_reaches [of w0 this "init a"] by (auto simp: reaches_def)
  have "init a = [] \<Longrightarrow> evs = [] \<and> (\<exists>w'. run_init this (init a) w0 = Inr w')"
    using evs by simp
  then show ?thesis
    using c t0 evs by (auto simp: builtin_characteristics_def)
qed

text \<open>The second accessory of the example, which has no user services.\<close>

theorem builtin_characteristics_first_witness:
  "accessories lamp_world 201 = Some (lamp\<lparr>name := ''Bridge'', init := []\<rparr>) \<and>
   init_callback 201 9 lamp_world =
     Inr (lamp_world
       \<lparr>accessories := [200 \<mapsto> lamp,
                        201 \<mapsto> lamp\<lparr>name := ''Bridge'', init := [], accessory_object := 9\<rparr>],
        trace := [Hap_accessory_add 0,
                  Hap_service_and_characteristics_add 0 9 HAP_SERVICE_ACCESSORY_INFORMATION
                    (builtin_characteristics (lamp\<lparr>name := ''Bridge'', init := []\<rparr>))]\<rparr>) \<and>
   map hc_type (builtin_characteristics (lamp\<lparr>name := ''Bridge'', init := []\<rparr>)) =
     [HAP_CHARACTER_IDENTIFY, HAP_CHARACTER_MANUFACTURER, HAP_CHARACTER_MODEL,
      HAP_CHARACTER_NAME, HAP_CHARACTER_SERIAL_NUMBER, HAP_CHARACTER_FIRMWARE_REVISION]"
proof -
  define bridge where "bridge = lamp\<lparr>name := ''Bridge'', init := []\<rparr>"
  have h: "accessories lamp_world 201 = Some bridge"
    by (simp add: lamp_world_def bridge_def)
  have types: "map hc_type (builtin_characteristics bridge) =
     [HAP_CHARACTER_IDENTIFY, HAP_CHARACTER_MANUFACTURER, HAP_CHARACTER_MODEL,
      HAP_CHARACTER_NAME, HAP_CHARACTER_SERIAL_NUMBER, HAP_CHARACTER_FIRMWARE_REVISION]"
    using builtin_characteristics_first [OF h, of 9] by (elim exE conjE)
  have empty: "init bridge = []"
    by (simp add: bridge_def)
  have "init_callback 201 9 lamp_world =
     Inr (lamp_world
       \<lparr>accessories := [200 \<mapsto> lamp, 201 \<mapsto> bridge\<lparr>accessory_object := 9\<rparr>],
        trace := [Hap_accessory_add 0,
                  Hap_service_and_characteristics_add 0 9 HAP_SERVICE_ACCESSORY_INFORMATION
                    (builtin_characteristics bridge)]\<rparr>)"
    using h empty
    by (simp add: init_callback_def record_events_def lamp_world_def fun_eq_iff
        bridge_def lamp_def)
  then show ?thesis
    using h types by (simp add: bridge_def)
qed

section \<open>Allocation and release of the valid values\<close>

text \<open>
  The allocator hands out increasing addresses, so an address that was handed out is never
  handed out again. Along a step \<open>heap_step w w' evs\<close> every address that \<open>evs\<close> allocates
  or releases is handed out during the step.
\<close>

lemma word_less_succ: "n + 1 \<noteq> 0 \<Longrightarrow> n < n + 1" for n :: payload
  by (simp add: word_less_nat_alt unatSuc add.commute)

lemma heap_step_refl: "heap_wf w \<Longrightarrow> heap_step w w []"
  by (simp add: heap_step_def)

lemma heap_step_trans:
  assumes "heap_step w w1 evs1" and "heap_step w1 w2 evs2"
  shows "heap_step w w2 (evs1 @ evs2)"
  using assms unfolding heap_step_def by auto

lemma heap_step_events:
  assumes "heap_wf w" and "heap w' = heap w" and "next_addr w' = next_addr w"
    and "trace w' = trace w @ evs"
    and "\<forall>x. Allocate x \<notin> set evs \<and> Release x \<notin> set evs"
  shows "heap_step w w' evs"
  using assms by (simp add: heap_step_def heap_wf_def handed_out_def)

lemma allocate_heap_step:
  assumes "allocate obj w = Inr (x, w')" and "heap_wf w"
  shows "heap_step w w' [Allocate x]" and "x \<noteq> nullptr" and "\<not> handed_out w x"
    and "heap w' = (heap w)(x \<mapsto> obj)" and "characteristics w' = characteristics w"
proof -
  have x: "x = next_addr w" "x \<noteq> nullptr"
    and w': "w' = w\<lparr>heap := (heap w)(x \<mapsto> obj), next_addr := x + 1,
                    trace := trace w @ [Allocate x]\<rparr>"
    using assms(1) by (auto simp: allocate_def split: if_splits)
  show "x \<noteq> nullptr" by fact
  show fresh: "\<not> handed_out w x"
    using x by (simp add: handed_out_def)
  show "heap w' = (heap w)(x \<mapsto> obj)" and "characteristics w' = characteristics w"
    by (simp_all add: w')
  have up: "handed_out w' y" if "handed_out w y \<or> y = x" for y
  proof (cases "x + 1 = 0")
    case True
    then show ?thesis by (simp add: handed_out_def w')
  next
    case False
    then have "x < x + 1" by (rule word_less_succ)
    moreover have "y \<le> x"
      using that x by (auto simp: handed_out_def)
    ultimately have "y < x + 1"
      by (rule le_less_trans [rotated])
    then show ?thesis
      by (simp add: handed_out_def w')
  qed
  have "heap_wf w'"
    unfolding heap_wf_def
  proof (intro allI impI)
    fix y
    assume "heap w' y \<noteq> None"
    then have "y = x \<or> heap w y \<noteq> None"
      by (auto simp: w' split: if_splits)
    then show "handed_out w' y"
      using assms(2) up by (auto simp: heap_wf_def)
  qed
  then show "heap_step w w' [Allocate x]"
    using up fresh by (auto simp: heap_step_def w')
qed

lemma release_Inr:
  assumes "release x w = Inr w'"
  shows "heap w x \<noteq> None" and "heap w' = (heap w)(x := None)"
    and "trace w' = trace w @ [Release x]" and "next_addr w' = next_addr w"
    and "characteristics w' = characteristics w"
  using assms by (auto simp: release_def split: if_splits)

lemma read_heap_step:
  assumes "read this w = Inr (current, w')" and "heap_wf w"
  shows "\<exists>evs. heap_step w w' evs \<and> heap w' = heap w \<and>
           characteristics w' = characteristics w"
proof -
  obtain c where c: "characteristics w this = Some c"
    using assms(1) by (auto simp: read_def split: option.splits)
  define w0 where "w0 = record_events [Supplier_call this] w"
  have s0: "heap_step w w0 [Supplier_call this]" and h0: "heap w0 = heap w"
    and c0: "characteristics w0 = characteristics w"
    using assms(2) by (auto simp: w0_def record_events_def intro!: heap_step_events)
  show ?thesis
  proof (cases "behaviour c")
    case (StringFunction readFunction writeFunction)
    then obtain f t w1 where
      al: "allocate (Char_buffer (f (user w))) w0 = Inr (t, w1)" and rl: "release t w1 = Inr w'"
      using assms(1) c
      by (auto simp: read_def w0_def split: option.splits sum.splits)
    have wf0: "heap_wf w0"
      using s0 by (simp add: heap_step_def)
    note a = allocate_heap_step [OF al wf0]
    have fresh: "heap w0 t = None"
      using a(3) wf0 by (auto simp: heap_wf_def)
    note r = release_Inr [OF rl]
    have heap: "heap w' = heap w"
      using r(2) a(4) fresh h0 by (auto simp: fun_eq_iff)
    have same: "handed_out w' x = handed_out w1 x" for x
      using r(4) by (simp add: handed_out_def)
    have "heap_wf w'"
      using wf0 a(1) heap h0 same by (auto simp: heap_wf_def heap_step_def)
    then have "heap_step w0 w' ([Allocate t] @ [Release t])"
      using a(1) r(3) same by (auto simp: heap_step_def)
    then have "heap_step w w' ([Supplier_call this] @ [Allocate t] @ [Release t])"
      using s0 heap_step_trans by blast
    then show ?thesis
      using heap a(5) r(5) c0 by auto
  next
    case (FloatFunction readFunction writeFunction)
    then have "w' = w0"
      using assms(1) c by (auto simp: read_def w0_def split: option.splits)
    then show ?thesis using s0 h0 c0 by auto
  next
    case (IntFunction readFunction writeFunction)
    then have "w' = w0"
      using assms(1) c by (auto simp: read_def w0_def split: option.splits)
    then show ?thesis using s0 h0 c0 by auto
  qed
qed

lemma carries_overrides: "overrides w' = overrides w \<Longrightarrow> carries w' p cs = carries w p cs"
proof -
  assume "overrides w' = overrides w"
  then have "overrides w' p = overrides w p" by simp
  then show ?thesis
    by (auto simp: overrides_def carries_def split: option.splits)
qed

lemma get_characteristic_struct_heap:
  assumes "get_characteristic_struct this w = Inr (cs, w')" and "heap_wf w"
  shows "\<exists>evs. heap_step w w' evs \<and> carries w this cs \<and>
           characteristics w' = characteristics w \<and>
           (\<forall>x. x \<notin> set (arrays [cs]) \<longrightarrow> heap w' x = heap w x) \<and>
           (\<forall>x \<in> set (arrays [cs]). \<not> handed_out w x \<and> heap w' x \<noteq> None \<and>
              Allocate x \<in> set evs \<and> Release x \<notin> set evs)"
proof -
  obtain c where c: "characteristics w this = Some c"
    using assms(1) by (auto simp: get_characteristic_struct_def split: option.splits)
  define w0 where "w0 = record_events [Get_characteristic_struct this (accessory_handle c)] w"
  define present where "present = fst (valid_values_override c)"
  obtain a w1 current where
    alloc: "(if present
             then allocate (Int_array (snd (valid_values_override c))) w0
             else Inr (nullptr, w0)) = Inr (a, w1)"
    and rd: "read this w1 = Inr (current, w')"
    and fields: "cs_arg cs = this" "override_valid_values cs = present"
      "valid_values cs = a"
      "valid_values_length cs = (if present then length (snd (valid_values_override c)) else 0)"
    using assms(1) c
    by (auto simp: get_characteristic_struct_def w0_def present_def split: sum.splits if_splits)
  have s0: "heap_step w w0 [Get_characteristic_struct this (accessory_handle c)]"
    and h0: "heap w0 = heap w" and c0: "characteristics w0 = characteristics w"
    and n0: "next_addr w0 = next_addr w"
    using assms(2) by (auto simp: w0_def record_events_def intro!: heap_step_events)
  have wf0: "heap_wf w0"
    using s0 by (simp add: heap_step_def)
  have out0: "handed_out w0 x = handed_out w x" for x
    using n0 by (simp add: handed_out_def)
  show ?thesis
  proof (cases present)
    case True
    then have al: "allocate (Int_array (snd (valid_values_override c))) w0 = Inr (a, w1)"
      using alloc by simp
    note A = allocate_heap_step [OF al wf0]
    have wf1: "heap_wf w1"
      using A(1) by (simp add: heap_step_def)
    obtain revs where r: "heap_step w1 w' revs" and hr: "heap w' = heap w1"
      and cr: "characteristics w' = characteristics w1"
      using read_heap_step [OF rd wf1] by blast
    have out1: "handed_out w1 a"
      using A(1) by (simp add: heap_step_def)
    have "Release a \<notin> set revs"
      using r out1 by (auto simp: heap_step_def)
    moreover have "heap_step w w'
        ([Get_characteristic_struct this (accessory_handle c)] @ [Allocate a] @ revs)"
      using s0 A(1) r heap_step_trans by blast
    moreover have "carries w this cs"
      using c fields True A(2) by (simp add: carries_def present_def)
    moreover have "arrays [cs] = [a]"
      using fields True A(2) by (simp add: arrays_def)
    ultimately show ?thesis
      using A(3,4,5) hr cr h0 c0 out0
      by (intro exI [of _ "[Get_characteristic_struct this (accessory_handle c)] @
            [Allocate a] @ revs"]) auto
  next
    case False
    then have w1: "w1 = w0" and a: "a = nullptr"
      using alloc by simp_all
    obtain revs where r: "heap_step w0 w' revs" and hr: "heap w' = heap w0"
      and cr: "characteristics w' = characteristics w0"
      using read_heap_step [OF rd [unfolded w1] wf0] by blast
    have "heap_step w w' ([Get_characteristic_struct this (accessory_handle c)] @ revs)"
      using s0 r by (rule heap_step_trans)
    moreover have "carries w this cs"
      using c fields False a by (simp add: carries_def present_def)
    moreover have "arrays [cs] = []"
      using fields a by (simp add: arrays_def)
    ultimately show ?thesis
      using hr cr h0 c0 by auto
  qed
qed

lemma arrays_Cons: "arrays (cs # rest) = arrays [cs] @ arrays rest"
  by (simp add: arrays_def)

lemma release_structs_Inr:
  assumes "release_structs hap_cs w = Inr w'"
  shows "trace w' = trace w @ map Release (arrays hap_cs) \<and> distinct (arrays hap_cs) \<and>
         (\<forall>x. heap w' x = (if x \<in> set (arrays hap_cs) then None else heap w x)) \<and>
         (\<forall>x \<in> set (arrays hap_cs). heap w x \<noteq> None) \<and>
         characteristics w' = characteristics w"
  using assms
proof (induction hap_cs arbitrary: w)
  case Nil
  then show ?case by (simp add: arrays_def)
next
  case (Cons cs rest)
  then obtain w1 where d: "delete_characteristic_struct_internals cs w = Inr w1"
    and r: "release_structs rest w1 = Inr w'"
    by (auto split: sum.splits)
  note IH = Cons.IH [OF r]
  show ?case
  proof (cases "override_valid_values cs \<and> valid_values cs \<noteq> nullptr")
    case False
    then have "w1 = w" and "arrays (cs # rest) = arrays rest"
      using d by (auto simp: delete_characteristic_struct_internals_def arrays_def)
    then show ?thesis using IH by simp
  next
    case True
    then have rl: "release (valid_values cs) w = Inr w1"
      and a: "arrays (cs # rest) = valid_values cs # arrays rest"
      using d by (auto simp: delete_characteristic_struct_internals_def arrays_def)
    note R = release_Inr [OF rl]
    have fresh: "valid_values cs \<notin> set (arrays rest)"
      using IH R(2) by auto
    have live: "heap w x \<noteq> None" if "x \<in> set (arrays rest)" for x
    proof -
      have "heap w1 x \<noteq> None" using IH that by blast
      then show ?thesis by (simp add: R(2) split: if_splits)
    qed
    have "trace w' = trace w @ map Release (valid_values cs # arrays rest)"
      using IH R(3) by simp
    moreover have "distinct (valid_values cs # arrays rest)"
      using IH fresh by simp
    moreover have "heap w' x = (if x \<in> set (valid_values cs # arrays rest) then None else heap w x)"
      for x
      using IH R(2) by simp
    moreover have "\<forall>x \<in> set (valid_values cs # arrays rest). heap w x \<noteq> None"
      using live R(1) by auto
    moreover have "characteristics w' = characteristics w"
      using IH R(5) by simp
    ultimately show ?thesis
      unfolding a by blast
  qed
qed


lemma build_structs_heap:
  assumes "build_structs h ps acc w = Inr (hap_cs, w')" and "heap_wf w"
  shows "\<exists>new evs. hap_cs = acc @ new \<and> heap_step w w' evs \<and>
           overrides w' = overrides w \<and> list_all2 (carries w) ps new \<and>
           (\<forall>x. x \<notin> set (arrays new) \<longrightarrow> heap w' x = heap w x) \<and>
           (\<forall>x \<in> set (arrays new). \<not> handed_out w x \<and> heap w' x \<noteq> None \<and>
              Allocate x \<in> set evs \<and> Release x \<notin> set evs)"
  using assms
proof (induction ps arbitrary: acc w)
  case Nil
  then have "hap_cs = acc" and "w' = w" by simp_all
  then show ?case
    using Nil.prems(2) heap_step_refl by (auto simp: arrays_def intro!: exI [of _ "[]"])
next
  case (Cons p ps)
  obtain c where c: "characteristics w p = Some c"
    using Cons.prems(1) by (auto split: option.splits)
  define w0 where
    "w0 = w\<lparr>characteristics := (characteristics w)(p \<mapsto> c\<lparr>accessory_handle := Some h\<rparr>)\<rparr>"
  obtain cs w1 where g: "get_characteristic_struct p w0 = Inr (cs, w1)"
    and rest: "build_structs h ps (acc @ [cs]) w1 = Inr (hap_cs, w')"
    using Cons.prems(1) c by (auto simp: w0_def split: sum.splits)
  have wf0: "heap_wf w0" and h0: "heap w0 = heap w" and out0: "\<And>x. handed_out w0 x = handed_out w x"
    and t0: "trace w0 = trace w"
    using Cons.prems(2) by (simp_all add: w0_def heap_wf_def handed_out_def)
  have o0: "overrides w0 = overrides w"
    using c by (auto simp: w0_def overrides_def fun_eq_iff)
  obtain evs1 where s1: "heap_step w0 w1 evs1" and car: "carries w0 p cs"
    and c1: "characteristics w1 = characteristics w0"
    and keep1: "\<And>x. x \<notin> set (arrays [cs]) \<Longrightarrow> heap w1 x = heap w0 x"
    and new1: "\<And>x. x \<in> set (arrays [cs]) \<Longrightarrow> \<not> handed_out w0 x \<and> heap w1 x \<noteq> None \<and>
              Allocate x \<in> set evs1 \<and> Release x \<notin> set evs1"
    using get_characteristic_struct_heap [OF g wf0] by blast
  have wf1: "heap_wf w1"
    using s1 by (simp add: heap_step_def)
  have o1: "overrides w1 = overrides w"
    using c1 o0 by (simp add: overrides_def fun_eq_iff)
  obtain new evs2 where n: "hap_cs = (acc @ [cs]) @ new" and s2: "heap_step w1 w' evs2"
    and o2: "overrides w' = overrides w1" and cars: "list_all2 (carries w1) ps new"
    and keep2: "\<And>x. x \<notin> set (arrays new) \<Longrightarrow> heap w' x = heap w1 x"
    and new2: "\<And>x. x \<in> set (arrays new) \<Longrightarrow> \<not> handed_out w1 x \<and> heap w' x \<noteq> None \<and>
              Allocate x \<in> set evs2 \<and> Release x \<notin> set evs2"
    using Cons.IH [OF rest wf1] by blast
  have mono1: "handed_out w1 x" if "handed_out w0 x" for x
    using s1 that by (simp add: heap_step_def)
  have given1: "handed_out w1 x" if "x \<in> set (arrays [cs])" for x
    using s1 new1 [OF that] by (auto simp: heap_step_def)
  have s: "heap_step w w' (evs1 @ evs2)"
  proof -
    have "heap_step w0 w' (evs1 @ evs2)"
      using s1 s2 by (rule heap_step_trans)
    then show ?thesis
      using Cons.prems(2) h0 out0 t0 by (simp add: heap_step_def)
  qed
  have cw: "carries w1 = carries w" and cw0: "carries w0 = carries w"
    using carries_overrides [OF o1] carries_overrides [OF o0] by (auto simp: fun_eq_iff)
  have "hap_cs = acc @ (cs # new)"
    using n by simp
  moreover have "overrides w' = overrides w"
    using o2 o1 by simp
  moreover have "list_all2 (carries w) (p # ps) (cs # new)"
    using car cars cw cw0 by simp
  moreover have "heap w' x = heap w x" if "x \<notin> set (arrays (cs # new))" for x
  proof -
    have "x \<notin> set (arrays [cs])" and "x \<notin> set (arrays new)"
      using that arrays_Cons [of cs new] by auto
    then show ?thesis
      using keep1 keep2 h0 by simp
  qed
  moreover have "\<not> handed_out w x \<and> heap w' x \<noteq> None \<and>
      Allocate x \<in> set (evs1 @ evs2) \<and> Release x \<notin> set (evs1 @ evs2)"
    if hx: "x \<in> set (arrays (cs # new))" for x
  proof -
    consider "x \<in> set (arrays [cs])" | "x \<in> set (arrays new)"
      using hx arrays_Cons [of cs new] by auto
    then show ?thesis
    proof cases
      case 1
      have out: "handed_out w1 x" using given1 [OF 1] .
      then have notnew: "x \<notin> set (arrays new)"
        using new2 by blast
      have "Release x \<notin> set evs2"
        using s2 out by (auto simp: heap_step_def)
      moreover have "heap w' x \<noteq> None"
        using keep2 [OF notnew] new1 [OF 1] by simp
      ultimately show ?thesis
        using new1 [OF 1] out0 by auto
    next
      case 2
      have nout: "\<not> handed_out w1 x" using new2 [OF 2] by simp
      then have "\<not> handed_out w0 x" using mono1 by blast
      moreover have "Release x \<notin> set evs1"
        using s1 nout by (auto simp: heap_step_def)
      ultimately show ?thesis
        using new2 [OF 2] out0 by auto
    qed
  qed
  ultimately show ?case
    using s by blast
qed

text \<open>
  A call of \<^verbatim>\<open>add_service\<close> that returns: the structure array is allocated, the structures
  are built (events \<open>evs\<close>, which allocate each array of valid values and release none of
  them), the host is called with the structures, each array of valid values is released
  once, in the order of the structures, and the structure array is released. Each
  structure carries the length of its characteristic's list of valid values, and an array
  exactly when the override is present. The heap is as before the call, and the lists of
  valid values of the characteristics are unchanged.
\<close>

lemma add_service_releases_each_array:
  assumes "add_service this service_type chars w = Inr w'" and "heap_wf w"
  shows "\<exists>a hap_cs_addr hap_cs evs.
           accessories w this = Some a \<and>
           trace w' = trace w @ Allocate hap_cs_addr # evs @
             Hap_service_and_characteristics_ex_add (acc_handle a) (accessory_object a)
               service_type hap_cs #
             map Release (arrays hap_cs) @ [Release hap_cs_addr] \<and>
           list_all2 (carries w) chars hap_cs \<and>
           distinct (arrays hap_cs) \<and>
           (\<forall>x \<in> set (arrays hap_cs).
              heap w x = None \<and> Allocate x \<in> set evs \<and> Release x \<notin> set evs) \<and>
           heap w' = heap w \<and> overrides w' = overrides w"
proof -
  obtain a hap_cs_addr w1 hap_cs w2 w3 where
    acc: "accessories w this = Some a"
    and al: "allocate (Struct_array (length chars)) w = Inr (hap_cs_addr, w1)"
    and b: "build_structs (acc_handle a) chars [] w1 = Inr (hap_cs, w2)"
    and r: "release_structs hap_cs
              (record_events [Hap_service_and_characteristics_ex_add (acc_handle a)
                 (accessory_object a) service_type hap_cs] w2) = Inr w3"
    and d: "release hap_cs_addr w3 = Inr w'"
    using add_service_Inr [OF assms(1)] by blast
  define ev where "ev = Hap_service_and_characteristics_ex_add (acc_handle a)
                 (accessory_object a) service_type hap_cs"
  define w2' where "w2' = record_events [ev] w2"
  note A = allocate_heap_step [OF al assms(2)]
  have wf1: "heap_wf w1"
    using A(1) by (simp add: heap_step_def)
  have t1: "trace w1 = trace w @ [Allocate hap_cs_addr]"
    using A(1) by (simp add: heap_step_def)
  have o1: "overrides w1 = overrides w"
    using A(5) by (simp add: overrides_def fun_eq_iff)
  have mono1: "handed_out w1 x" if "handed_out w x" for x
    using A(1) that by (simp add: heap_step_def)
  obtain new evs where n: "hap_cs = [] @ new" and s2: "heap_step w1 w2 evs"
    and o2: "overrides w2 = overrides w1" and cars: "list_all2 (carries w1) chars new"
    and keep2: "\<And>x. x \<notin> set (arrays new) \<Longrightarrow> heap w2 x = heap w1 x"
    and new2: "\<And>x. x \<in> set (arrays new) \<Longrightarrow> \<not> handed_out w1 x \<and> heap w2 x \<noteq> None \<and>
              Allocate x \<in> set evs \<and> Release x \<notin> set evs"
    using build_structs_heap [OF b wf1] by blast
  have new: "new = hap_cs"
    using n by simp
  have t2: "trace w2 = trace w1 @ evs"
    using s2 by (simp add: heap_step_def)
  have w2': "trace w2' = trace w2 @ [ev]" "heap w2' = heap w2"
    "characteristics w2' = characteristics w2"
    by (simp_all add: w2'_def record_events_def)
  note R = release_structs_Inr [OF r [folded ev_def w2'_def]]
  note D = release_Inr [OF d]
  have t3: "trace w3 = trace w2' @ map Release (arrays hap_cs)"
    and dist: "distinct (arrays hap_cs)"
    and h3: "\<And>x. heap w3 x = (if x \<in> set (arrays hap_cs) then None else heap w2' x)"
    and c3: "characteristics w3 = characteristics w2'"
    using R by simp_all
  have "trace w' = trace w @ Allocate hap_cs_addr # evs @ ev #
      map Release (arrays hap_cs) @ [Release hap_cs_addr]"
    using D(3) t3 w2'(1) t2 t1 by simp
  moreover have "list_all2 (carries w) chars hap_cs"
  proof -
    have "carries w1 = carries w"
      using carries_overrides [OF o1] by (auto simp: fun_eq_iff)
    then show ?thesis using cars new by simp
  qed
  moreover have "heap w x = None \<and> Allocate x \<in> set evs \<and> Release x \<notin> set evs"
    if hx: "x \<in> set (arrays hap_cs)" for x
  proof -
    have "\<not> handed_out w x"
      using new2 [of x] hx new mono1 by blast
    then have "heap w x = None"
      using assms(2) by (auto simp: heap_wf_def)
    then show ?thesis
      using new2 [of x] hx new by simp
  qed
  moreover have "heap w' = heap w"
  proof (rule ext)
    fix x
    have fresh: "heap w hap_cs_addr = None"
      using A(3) assms(2) by (auto simp: heap_wf_def)
    show "heap w' x = heap w x"
    proof (cases "x \<in> set (arrays hap_cs)")
      case True
      then have "\<not> handed_out w1 x"
        using new2 [of x] new by simp
      then have "\<not> handed_out w x" and "heap w1 x = None"
        using mono1 wf1 by (auto simp: heap_wf_def)
      then have "heap w x = None"
        using assms(2) by (auto simp: heap_wf_def)
      then show ?thesis
        using True h3 [of x] D(2) by simp
    next
      case False
      then have "heap w3 x = heap w1 x"
        using h3 [of x] w2'(2) keep2 [of x] new by simp
      then show ?thesis
        using D(2) A(4) fresh by (simp split: if_splits)
    qed
  qed
  moreover have "overrides w' = overrides w"
    using D(5) c3 w2'(3) o2 o1 by (simp add: overrides_def fun_eq_iff)
  ultimately show ?thesis
    using acc dist unfolding ev_def by blast
qed

text \<open>The service of the example with the readable switch alone.\<close>

lemma add_service_releases_each_array_example:
  "heap_wf service_world \<and>
   add_service 200 (HAP_SERVICE_OTHER 1) [100] service_world =
     Inr (service_world
            \<lparr>characteristics := (characteristics service_world)
                (100 \<mapsto> switch\<lparr>accessory_handle := Some 7\<rparr>),
             next_addr := 1002,
             trace := [Allocate 1000, Get_characteristic_struct 100 (Some 7), Allocate 1001,
                       Supplier_call 100,
                       Hap_service_and_characteristics_ex_add 7 9 (HAP_SERVICE_OTHER 1)
                         [\<lparr>cs_type = HAP_CHARACTER_OTHER 0, cs_value = 1, cs_arg = 100,
                           cs_read = Some Read_characteristic,
                           cs_write = Some Write_characteristic,
                           cs_event = Some Set_characteristic_event_handle,
                           override_max_value = False, max_value = nullptr,
                           override_min_value = False, min_value = nullptr,
                           cs_reserved_flag = False, cs_reserved_pointer = nullptr,
                           override_valid_values = True, valid_values_length = 2,
                           valid_values = 1001\<rparr>],
                       Release 1001, Release 1000]\<rparr>)"
proof -
  have "heap_wf service_world"
    by (simp add: heap_wf_def service_world_def lamp_enabled_def lamp_world_def)
  then show ?thesis
    by (simp add: model_defs service_world_def lamp_enabled_def)
qed

text \<open>
  C5. The service of the example: the readable switch, whose valid values are overridden,
  and a write-only trigger (constructed with an empty \<^verbatim>\<open>readFunction\<close>).
  \<^verbatim>\<open>add_service\<close> allocates the structure array at address 1000 and, for the switch, the
  array of valid values at address 1001. Converting the trigger calls \<^verbatim>\<open>read()\<close>, which
  calls the empty \<^verbatim>\<open>readFunction\<close>: the call is left with \<^verbatim>\<open>std::bad_function_call\<close>
  before the host call and before the release loop. Both allocations are still live and
  the trace has no release.
\<close>

theorem add_service_leaks_on_unreadable_characteristic:
  "add_service 200 (HAP_SERVICE_OTHER 1) [100, 101] service_world =
     Inl (Bad_function_call,
          service_world
            \<lparr>characteristics := [100 \<mapsto> switch\<lparr>accessory_handle := Some 7\<rparr>,
                                  101 \<mapsto> trigger\<lparr>accessory_handle := Some 7\<rparr>],
             heap := [1000 \<mapsto> Struct_array 2, 1001 \<mapsto> Int_array [0, 1]],
             next_addr := 1002,
             trace := [Allocate 1000, Get_characteristic_struct 100 (Some 7), Allocate 1001,
                       Supplier_call 100, Get_characteristic_struct 101 (Some 7)]\<rparr>)"
  by (simp add: model_defs service_world_def lamp_enabled_def trigger_def fun_eq_iff)

end
